theory Spec2Isabelle
  imports Complex_Main "HOL-Library.AList" "HOL-Library.Multiset" "HOL-Library.Product_Lexorder"
begin

section \<open>Values, rows and the JavaScript built-ins\<close>

text \<open>
  The cleaning and estimation engine (\<^verbatim>\<open>DataProcessor\<close> and \<^verbatim>\<open>StatisticalAnalysis\<close>) works on
  \<^verbatim>\<open>Record<string, any>[]\<close>.  A cell is a number, a string, \<^verbatim>\<open>null\<close> or \<^verbatim>\<open>undefined\<close>.
  Numbers are modelled as reals: rounding, overflow and the values \<^verbatim>\<open>Infinity\<close> and
  \<^verbatim>\<open>-Infinity\<close> are outside the model.  The number \<^verbatim>\<open>NaN\<close> is a cell of its own, and where
  a computation of the source can give a number that is not finite (\<^verbatim>\<open>0/0\<close>, \<^verbatim>\<open>x/0\<close>, the
  square root of a negative number) its model returns \<open>None\<close>.
\<close>

datatype cell = Num real | NaN | Str string | Null | Undefined

type_synonym jsnum = "real option"

definition numCell :: "jsnum \<Rightarrow> cell" where
  "numCell x = (case x of None \<Rightarrow> NaN | Some v \<Rightarrow> Num v)"

text \<open>
  A row is a JavaScript object: an association list in insertion order; the first binding
  of a key is the one read.  \<^verbatim>\<open>row[col]\<close> of an absent key is \<^verbatim>\<open>undefined\<close>;
  \<^verbatim>\<open>{ ...row }\<close> is the list itself (a value, so the copy is implicit here; the store model
  further down makes it explicit); \<^verbatim>\<open>newRow[col] = v\<close> overwrites in place or appends.
\<close>

type_synonym row = "(string \<times> cell) list"

definition getCell :: "row \<Rightarrow> string \<Rightarrow> cell" where
  "getCell r col = (case map_of r col of None \<Rightarrow> Undefined | Some v \<Rightarrow> v)"

definition setCell :: "string \<Rightarrow> cell \<Rightarrow> row \<Rightarrow> row" where
  "setCell col v r = AList.update col v r"

text \<open>
  The built-ins of the language that read or print numerals are parameters of the model:
  \<^verbatim>\<open>parseFloat\<close> on a string, \<^verbatim>\<open>Number\<close> on a string (the coercion behind \<^verbatim>\<open>isFinite\<close>
  and \<^verbatim>\<open><\<close>), and \<^verbatim>\<open>String\<close> on a number (the property key \<^verbatim>\<open>lodash.countBy\<close> files a
  number under).  \<open>None\<close> is \<^verbatim>\<open>NaN\<close>.
\<close>

record builtins =
  parseFloatStr :: "string \<Rightarrow> jsnum"
  NumberStr :: "string \<Rightarrow> jsnum"
  StringNum :: "real \<Rightarrow> string"

text \<open>\<^verbatim>\<open>parseFloat(v)\<close>: a number is read back as itself, \<^verbatim>\<open>null\<close> and \<^verbatim>\<open>undefined\<close>
  are first printed (\<^verbatim>\<open>"null"\<close>, \<^verbatim>\<open>"undefined"\<close>) and give \<^verbatim>\<open>NaN\<close>.\<close>

fun parseFloat :: "builtins \<Rightarrow> cell \<Rightarrow> jsnum" where
  "parseFloat B (Num x) = Some x"
| "parseFloat B NaN = None"
| "parseFloat B (Str s) = parseFloatStr B s"
| "parseFloat B Null = None"
| "parseFloat B Undefined = None"

text \<open>\<^verbatim>\<open>Number(v)\<close>, the coercion of a relational comparison and of \<^verbatim>\<open>isFinite\<close>.\<close>

fun toNumber :: "builtins \<Rightarrow> cell \<Rightarrow> jsnum" where
  "toNumber B (Num x) = Some x"
| "toNumber B NaN = None"
| "toNumber B (Str s) = NumberStr B s"
| "toNumber B Null = Some 0"
| "toNumber B Undefined = None"

text \<open>\<^verbatim>\<open>String(v)\<close>, the property key of a value.\<close>

fun toString :: "builtins \<Rightarrow> cell \<Rightarrow> string" where
  "toString B (Num x) = StringNum B x"
| "toString B NaN = ''NaN''"
| "toString B (Str s) = s"
| "toString B Null = ''null''"
| "toString B Undefined = ''undefined''"

text \<open>The test \<^verbatim>\<open>v === null || v === undefined || v === ''\<close> of the imputation stage.\<close>

definition isMissing :: "cell \<Rightarrow> bool" where
  "isMissing v = (v = Null \<or> v = Undefined \<or> v = Str [])"

subsection \<open>Property order of an object\<close>

text \<open>
  \<^verbatim>\<open>Object.keys\<close> lists the keys that are array indices (canonical decimal numerals below
  \<open>2\<^sup>3\<^sup>2 - 1\<close>) first, in ascending numeric order, and the other keys after them in insertion
  order.
\<close>

definition isDigit :: "char \<Rightarrow> bool" where
  "isDigit c = (48 \<le> (of_char c :: nat) \<and> (of_char c :: nat) \<le> 57)"

definition digitsVal :: "string \<Rightarrow> nat" where
  "digitsVal s = foldl (\<lambda>n c. 10 * n + ((of_char c :: nat) - 48)) 0 s"

definition isArrayIndex :: "string \<Rightarrow> bool" where
  "isArrayIndex s =
     (s \<noteq> [] \<and> list_all isDigit s \<and> (s = ''0'' \<or> hd s \<noteq> CHR ''0'') \<and> digitsVal s < 4294967295)"

definition objectKeys :: "(string \<times> 'a) list \<Rightarrow> string list" where
  "objectKeys obj =
     (let ks = map fst obj
      in sort_key digitsVal (filter isArrayIndex ks) @ filter (\<lambda>key. \<not> isArrayIndex key) ks)"

subsection \<open>Exceptions\<close>

text \<open>The only exception the engine can raise is a \<^verbatim>\<open>TypeError\<close>: \<^verbatim>\<open>reduce\<close> of an empty
  array with no initial value, and the destructuring of a value that is not iterable.\<close>

datatype error = TypeError

fun mapE :: "('a \<Rightarrow> error + 'b) \<Rightarrow> 'a list \<Rightarrow> error + 'b list" where
  "mapE f [] = Inr []"
| "mapE f (x # xs) =
     (case f x of
        Inl e \<Rightarrow> Inl e
      | Inr y \<Rightarrow> (case mapE f xs of Inl e \<Rightarrow> Inl e | Inr ys \<Rightarrow> Inr (y # ys)))"

fun foldE :: "('a \<Rightarrow> 's \<Rightarrow> error + 's) \<Rightarrow> 'a list \<Rightarrow> 's \<Rightarrow> error + 's" where
  "foldE f [] s = Inr s"
| "foldE f (x # xs) s = (case f x s of Inl e \<Rightarrow> Inl e | Inr s' \<Rightarrow> foldE f xs s')"

section \<open>Column statistics\<close>

text \<open>\<^verbatim>\<open>data.map(row => parseFloat(row[column])).filter(v => !isNaN(v))\<close>\<close>

definition numericValues :: "builtins \<Rightarrow> row list \<Rightarrow> string \<Rightarrow> real list" where
  "numericValues B data col = List.map_filter (\<lambda>r. parseFloat B (getCell r col)) data"

text \<open>\<^verbatim>\<open>calculateColumnMean\<close>: the sum over the count; \<^verbatim>\<open>0 / 0\<close> of an empty column is
  \<^verbatim>\<open>NaN\<close>.\<close>

definition calculateColumnMean :: "builtins \<Rightarrow> row list \<Rightarrow> string \<Rightarrow> jsnum" where
  "calculateColumnMean B data col =
     (let vals = numericValues B data col
      in if vals = [] then None else Some (sum_list vals / real (length vals)))"

text \<open>\<^verbatim>\<open>calculateColumnMedian\<close>: on an empty column both reads are \<^verbatim>\<open>undefined\<close> and the
  result is \<^verbatim>\<open>NaN\<close>.\<close>

definition calculateColumnMedian :: "builtins \<Rightarrow> row list \<Rightarrow> string \<Rightarrow> jsnum" where
  "calculateColumnMedian B data col =
     (let vals = sort (numericValues B data col);
          mid = length vals div 2
      in if vals = [] then None
         else if length vals mod 2 = 0 then Some ((vals ! (mid - 1) + vals ! mid) / 2)
         else Some (vals ! mid))"

text \<open>\<^verbatim>\<open>calculateColumnStd\<close>: the population standard deviation.\<close>

definition calculateColumnStd :: "builtins \<Rightarrow> row list \<Rightarrow> string \<Rightarrow> jsnum" where
  "calculateColumnStd B data col =
     (let vals = numericValues B data col
      in if vals = [] then None
         else (let mean = sum_list vals / real (length vals);
                   squaredDiffs = map (\<lambda>v. (v - mean)\<^sup>2) vals;
                   avgSquaredDiff = sum_list squaredDiffs / real (length vals)
               in Some (sqrt avgSquaredDiff)))"

text \<open>\<^verbatim>\<open>lodash.countBy\<close>: the values are filed under their string keys, a new key after
  the ones already there.\<close>

definition countBy :: "builtins \<Rightarrow> cell list \<Rightarrow> (string \<times> nat) list" where
  "countBy B vals =
     foldl (\<lambda>freq v. let key = toString B v
                      in AList.update key (case map_of freq key of None \<Rightarrow> 1 | Some n \<Rightarrow> n + 1) freq)
       [] vals"

definition frequencyOf :: "(string \<times> nat) list \<Rightarrow> string \<Rightarrow> nat" where
  "frequencyOf freq key = (case map_of freq key of None \<Rightarrow> 0 | Some n \<Rightarrow> n)"

text \<open>\<^verbatim>\<open>Object.keys(frequency).reduce((a, b) => frequency[a] > frequency[b] ? a : b)\<close>: with
  no initial value the first key starts the fold, and an empty array raises.\<close>

definition mostFrequentKey :: "(string \<times> nat) list \<Rightarrow> error + string" where
  "mostFrequentKey freq =
     (case objectKeys freq of
        [] \<Rightarrow> Inl TypeError
      | first # rest \<Rightarrow>
          Inr (foldl (\<lambda>a b. if frequencyOf freq a > frequencyOf freq b then a else b) first rest))"

text \<open>\<^verbatim>\<open>calculateColumnMode\<close>: only \<^verbatim>\<open>null\<close> and \<^verbatim>\<open>undefined\<close> are left out (the empty
  string is counted); the result is a key of the frequency object, a string.\<close>

definition modeValues :: "row list \<Rightarrow> string \<Rightarrow> cell list" where
  "modeValues data col = filter (\<lambda>v. v \<noteq> Null \<and> v \<noteq> Undefined) (map (\<lambda>r. getCell r col) data)"

definition calculateColumnMode :: "builtins \<Rightarrow> row list \<Rightarrow> string \<Rightarrow> error + cell" where
  "calculateColumnMode B data col =
     (case mostFrequentKey (countBy B (modeValues data col)) of
        Inl e \<Rightarrow> Inl e
      | Inr key \<Rightarrow> Inr (Str key))"

section \<open>KNN imputation\<close>

datatype metric = Euclidean | Manhattan

record KNNOptions =
  k :: nat
  distanceMetric :: metric

text \<open>A distance is a number or \<^verbatim>\<open>Infinity\<close> (no dimension in common).\<close>

datatype distance = Finite real | Infinity

text \<open>\<^verbatim>\<open>calculateDistance\<close>: the loop carries \<^verbatim>\<open>distance\<close> and \<^verbatim>\<open>validDimensions\<close>.\<close>

definition distanceStep :: "builtins \<Rightarrow> metric \<Rightarrow> row \<Rightarrow> row \<Rightarrow> real \<times> nat \<Rightarrow> string \<Rightarrow> real \<times> nat" where
  "distanceStep B m row1 row2 acc col =
     (case (parseFloat B (getCell row1 col), parseFloat B (getCell row2 col)) of
        (Some val1, Some val2) \<Rightarrow>
          (let diff = \<bar>val1 - val2\<bar>
           in (if m = Euclidean then fst acc + diff * diff else fst acc + diff, snd acc + 1))
      | _ \<Rightarrow> acc)"

definition calculateDistance :: "builtins \<Rightarrow> row \<Rightarrow> row \<Rightarrow> string list \<Rightarrow> metric \<Rightarrow> distance" where
  "calculateDistance B row1 row2 cols m =
     (let acc = foldl (distanceStep B m row1 row2) (0, 0) cols
      in if snd acc = 0 then Infinity
         else if m = Euclidean then Finite (sqrt (fst acc)) else Finite (fst acc))"

text \<open>The comparator \<^verbatim>\<open>a.distance - b.distance\<close> orders the finite distances, puts
  \<^verbatim>\<open>Infinity\<close> after them and leaves two infinite distances in place (their difference is
  \<^verbatim>\<open>NaN\<close>); \<^verbatim>\<open>sort\<close> is stable.\<close>

definition distanceKey :: "distance \<Rightarrow> bool \<times> real" where
  "distanceKey d = (case d of Finite x \<Rightarrow> (False, x) | Infinity \<Rightarrow> (True, 0))"

text \<open>\<^verbatim>\<open>isFinite(val)\<close> coerces with \<^verbatim>\<open>Number\<close>.\<close>

definition looksNumeric :: "builtins \<Rightarrow> cell \<Rightarrow> bool" where
  "looksNumeric B v = (parseFloat B v \<noteq> None \<and> toNumber B v \<noteq> None)"

definition numericColumns :: "builtins \<Rightarrow> row list \<Rightarrow> row \<Rightarrow> string \<Rightarrow> string list" where
  "numericColumns B data targetRow targetColumn =
     filter (\<lambda>col.
        if col = targetColumn then False
        else (let sampleValues = map (\<lambda>r. getCell r col) (take 10 data);
                  numericCount = length (filter (looksNumeric B) sampleValues)
              in real numericCount > real (length sampleValues) * 0.7))
       (objectKeys targetRow)"

text \<open>The weighted average of the numeric branch: a neighbour at distance 0 weighs 1, one at
  distance \<open>d\<close> weighs \<open>1 / (d + 10\<^sup>-\<^sup>8)\<close>, one at \<^verbatim>\<open>Infinity\<close> weighs 0.\<close>

definition neighborWeight :: "distance \<Rightarrow> real" where
  "neighborWeight d =
     (case d of Finite x \<Rightarrow> (if x = 0 then 1 else 1 / (x + 1 / 100000000)) | Infinity \<Rightarrow> 0)"

definition weightedStep :: "builtins \<Rightarrow> string \<Rightarrow> real \<times> real \<Rightarrow> row \<times> distance \<Rightarrow> real \<times> real" where
  "weightedStep B targetColumn acc neighbor =
     (case parseFloat B (getCell (fst neighbor) targetColumn) of
        None \<Rightarrow> acc
      | Some v \<Rightarrow> (fst acc + v * neighborWeight (snd neighbor), snd acc + neighborWeight (snd neighbor)))"

text \<open>The candidates (rows with a value in the target column), each with its distance to
  the target row, sorted by distance, cut to the first \<open>k\<close>.\<close>

definition completeRows :: "row list \<Rightarrow> string \<Rightarrow> row list" where
  "completeRows data targetColumn = filter (\<lambda>r. \<not> isMissing (getCell r targetColumn)) data"

definition nearestNeighbors ::
  "builtins \<Rightarrow> row list \<Rightarrow> row \<Rightarrow> string \<Rightarrow> KNNOptions \<Rightarrow> (row \<times> distance) list" where
  "nearestNeighbors B data targetRow targetColumn options =
     (let cols = numericColumns B data targetRow targetColumn;
          distances = map (\<lambda>r. (r, calculateDistance B targetRow r cols (distanceMetric options)))
                        (completeRows data targetColumn);
          sorted = sort_key (\<lambda>n. distanceKey (snd n)) distances
      in take (min (k options) (length sorted)) sorted)"

definition knnImputation :: "builtins \<Rightarrow> row list \<Rightarrow> row \<Rightarrow> string \<Rightarrow> KNNOptions \<Rightarrow> error + cell" where
  "knnImputation B data targetRow targetColumn options =
     (if completeRows data targetColumn = [] then Inr (numCell (calculateColumnMean B data targetColumn))
      else
       (let neighbors = nearestNeighbors B data targetRow targetColumn options
        in case parseFloat B (getCell targetRow targetColumn) of
             Some targetValue \<Rightarrow>
               (let acc = foldl (weightedStep B targetColumn) (0, 0) neighbors
                in if snd acc > 0 then Inr (Num (fst acc / snd acc))
                   else Inr (numCell (calculateColumnMean B data targetColumn)))
           | None \<Rightarrow>
               (let neighborValues = map (\<lambda>n. getCell (fst n) targetColumn) neighbors
                in case mostFrequentKey (countBy B neighborValues) of
                     Inl e \<Rightarrow> Inl e
                   | Inr key \<Rightarrow> Inr (Str key))))"

section \<open>The imputation stage\<close>

datatype imputation_method = Mean | Median | Mode | KNN | ForwardFill | BackwardFill | Remove

record imputation_config =
  imputationMethod :: imputation_method
  imputationColumns :: "string list"

text \<open>
  The body of \<^verbatim>\<open>columns.forEach((col) => { ... })\<close> on the row being built.  The
  \<^verbatim>\<open>switch\<close> has a case for \<^verbatim>\<open>'forward-fill'\<close> that holds a comment and a \<^verbatim>\<open>break\<close>, and no
  case for \<^verbatim>\<open>'backward-fill'\<close>.  In the case \<^verbatim>\<open>'remove'\<close> the statement \<^verbatim>\<open>return null\<close>
  returns from this callback, whose result \<^verbatim>\<open>forEach\<close> throws away: the row being built
  stays as it is and the loop goes on to the next column.
\<close>

definition imputeColumn ::
  "builtins \<Rightarrow> row list \<Rightarrow> row \<Rightarrow> imputation_method \<Rightarrow> string \<Rightarrow> row \<Rightarrow> error + row" where
  "imputeColumn B data row m col newRow =
     (if isMissing (getCell newRow col) then
        (case m of
           Mean \<Rightarrow> Inr (setCell col (numCell (calculateColumnMean B data col)) newRow)
         | Median \<Rightarrow> Inr (setCell col (numCell (calculateColumnMedian B data col)) newRow)
         | Mode \<Rightarrow>
             (case calculateColumnMode B data col of
                Inl e \<Rightarrow> Inl e
              | Inr v \<Rightarrow> Inr (setCell col v newRow))
         | KNN \<Rightarrow>
             (case knnImputation B data row col \<lparr>k = 5, distanceMetric = Euclidean\<rparr> of
                Inl e \<Rightarrow> Inl e
              | Inr v \<Rightarrow> Inr (setCell col v newRow))
         | ForwardFill \<Rightarrow> Inr newRow
         | BackwardFill \<Rightarrow> Inr newRow
         | Remove \<Rightarrow> Inr newRow)
      else Inr newRow)"

text \<open>The callback of \<^verbatim>\<open>data.map\<close>: it copies the row, runs the loop and returns the copy;
  \<open>None\<close> would be the \<^verbatim>\<open>null\<close> that marks a row for removal, and no path returns it.\<close>

definition imputeRow :: "builtins \<Rightarrow> row list \<Rightarrow> imputation_config \<Rightarrow> row \<Rightarrow> error + row option" where
  "imputeRow B data config row =
     (case foldE (imputeColumn B data row (imputationMethod config)) (imputationColumns config) row of
        Inl e \<Rightarrow> Inl e
      | Inr newRow \<Rightarrow> Inr (Some newRow))"

text \<open>\<^verbatim>\<open>.filter(row => row !== null)\<close>\<close>

definition dropNull :: "'a option list \<Rightarrow> 'a list" where
  "dropNull rows = List.map_filter (\<lambda>r. r) rows"

definition handleMissingValues :: "builtins \<Rightarrow> row list \<Rightarrow> imputation_config \<Rightarrow> error + row list" where
  "handleMissingValues B data config =
     (case mapE (imputeRow B data config) data of
        Inl e \<Rightarrow> Inl e
      | Inr rows \<Rightarrow> Inr (dropNull rows))"

section \<open>The outlier stage\<close>

datatype outlier_method = ZScore | IQR | Winsorization | IsolationForest

text \<open>\<^verbatim>\<open>threshold\<close> is a number, or the object \<^verbatim>\<open>{ lower, upper }\<close> of winsorization.\<close>

datatype threshold_value = ThresholdNumber real | ThresholdObject real real

datatype outlier_action = CapAction | RemoveAction | TransformAction

record outlier_config =
  outlierMethod :: outlier_method
  threshold :: threshold_value
  outlierAction :: outlier_action
  outlierColumns :: "string list"

text \<open>What the loop body computes for one value: \<^verbatim>\<open>isOutlier\<close>, \<^verbatim>\<open>lowerBound\<close> and
  \<^verbatim>\<open>upperBound\<close>.  A bound that is \<^verbatim>\<open>undefined\<close> or \<^verbatim>\<open>NaN\<close> is \<open>None\<close>: every comparison
  with it is false.\<close>

record detection =
  isOutlier :: bool
  lowerBound :: jsnum
  upperBound :: jsnum

definition noDetection :: detection where
  "noDetection = \<lparr>isOutlier = False, lowerBound = None, upperBound = None\<rparr>"

text \<open>\<^verbatim>\<open>value < bound\<close> and \<^verbatim>\<open>value > bound\<close>\<close>

definition belowBound :: "real \<Rightarrow> jsnum \<Rightarrow> bool" where
  "belowBound v bound = (case bound of None \<Rightarrow> False | Some b \<Rightarrow> v < b)"

definition aboveBound :: "real \<Rightarrow> jsnum \<Rightarrow> bool" where
  "aboveBound v bound = (case bound of None \<Rightarrow> False | Some b \<Rightarrow> v > b)"

text \<open>
  The branch \<^verbatim>\<open>method === 'z-score'\<close>.  With a standard deviation of 0 the quotient is
  \<^verbatim>\<open>NaN\<close> for a value equal to the mean (no outlier) and infinite otherwise (above every
  number).  A threshold that is an object compares as \<^verbatim>\<open>NaN\<close>.
\<close>

definition zScoreDetection :: "builtins \<Rightarrow> row list \<Rightarrow> string \<Rightarrow> threshold_value \<Rightarrow> real \<Rightarrow> detection" where
  "zScoreDetection B data col thr v =
     (case (calculateColumnMean B data col, calculateColumnStd B data col, thr) of
        (Some mean, Some std, ThresholdNumber t) \<Rightarrow>
          \<lparr>isOutlier = (if std = 0 then v \<noteq> mean else \<bar>(v - mean) / std\<bar> > t),
           lowerBound = Some (mean - t * std),
           upperBound = Some (mean + t * std)\<rparr>
      | _ \<Rightarrow> noDetection)"

text \<open>The branch \<^verbatim>\<open>method === 'iqr'\<close>.  The bounds are computed from the sorted numeric
  values of the column; the factor is the literal \<^verbatim>\<open>1.5\<close>, and \<^verbatim>\<open>threshold\<close> is not read.
  On a column with no numeric value every read is \<^verbatim>\<open>undefined\<close> and the bounds are
  \<^verbatim>\<open>NaN\<close>.\<close>

definition iqrBounds :: "builtins \<Rightarrow> row list \<Rightarrow> string \<Rightarrow> jsnum \<times> jsnum" where
  "iqrBounds B data col =
     (let vals = sort (numericValues B data col)
      in if vals = [] then (None, None)
         else
          (let q1 = vals ! nat \<lfloor>real (length vals) * 0.25\<rfloor>;
               q3 = vals ! nat \<lfloor>real (length vals) * 0.75\<rfloor>;
               iqr = q3 - q1
           in (Some (q1 - 1.5 * iqr), Some (q3 + 1.5 * iqr))))"

definition iqrDetection :: "builtins \<Rightarrow> row list \<Rightarrow> string \<Rightarrow> real \<Rightarrow> detection" where
  "iqrDetection B data col v =
     (let bounds = iqrBounds B data col
      in \<lparr>isOutlier = (belowBound v (fst bounds) \<or> aboveBound v (snd bounds)),
          lowerBound = fst bounds, upperBound = snd bounds\<rparr>)"

text \<open>\<^verbatim>\<open>values[index]\<close> for an integer index: \<^verbatim>\<open>undefined\<close> out of range.\<close>

definition valueAt :: "real list \<Rightarrow> int \<Rightarrow> jsnum" where
  "valueAt vals i = (if 0 \<le> i \<and> i < int (length vals) then Some (vals ! nat i) else None)"

text \<open>The branch \<^verbatim>\<open>method === 'winsorization'\<close>: the percentiles of the threshold object,
  or \<^verbatim>\<open>0.01\<close> and \<^verbatim>\<open>0.99\<close> when the threshold is not an object.\<close>

definition lowerPercentile :: "threshold_value \<Rightarrow> real" where
  "lowerPercentile thr = (case thr of ThresholdObject l u \<Rightarrow> l | ThresholdNumber t \<Rightarrow> 0.01)"

definition upperPercentile :: "threshold_value \<Rightarrow> real" where
  "upperPercentile thr = (case thr of ThresholdObject l u \<Rightarrow> u | ThresholdNumber t \<Rightarrow> 0.99)"

definition winsorizationBounds :: "builtins \<Rightarrow> row list \<Rightarrow> string \<Rightarrow> threshold_value \<Rightarrow> jsnum \<times> jsnum" where
  "winsorizationBounds B data col thr =
     (let vals = sort (numericValues B data col);
          lowerIndex = \<lfloor>real (length vals) * lowerPercentile thr\<rfloor>;
          upperIndex = \<lfloor>real (length vals) * upperPercentile thr\<rfloor>
      in (valueAt vals lowerIndex, valueAt vals upperIndex))"

definition winsorizationDetection :: "builtins \<Rightarrow> row list \<Rightarrow> string \<Rightarrow> threshold_value \<Rightarrow> real \<Rightarrow> detection" where
  "winsorizationDetection B data col thr v =
     (let bounds = winsorizationBounds B data col thr
      in \<lparr>isOutlier = (belowBound v (fst bounds) \<or> aboveBound v (snd bounds)),
          lowerBound = fst bounds, upperBound = snd bounds\<rparr>)"

definition detect :: "builtins \<Rightarrow> row list \<Rightarrow> outlier_config \<Rightarrow> string \<Rightarrow> real \<Rightarrow> detection" where
  "detect B data config col v =
     (case outlierMethod config of
        ZScore \<Rightarrow> zScoreDetection B data col (threshold config) v
      | IQR \<Rightarrow> iqrDetection B data col v
      | Winsorization \<Rightarrow> winsorizationDetection B data col (threshold config) v
      | IsolationForest \<Rightarrow> noDetection)"

text \<open>\<^verbatim>\<open>if (value < lowerBound) newRow[col] = lowerBound;
if (value > upperBound) newRow[col] = upperBound;\<close>\<close>

definition capCell :: "string \<Rightarrow> real \<Rightarrow> detection \<Rightarrow> row \<Rightarrow> row" where
  "capCell col v det newRow =
     (let r1 = (if belowBound v (lowerBound det) then setCell col (numCell (lowerBound det)) newRow else newRow)
      in if aboveBound v (upperBound det) then setCell col (numCell (upperBound det)) r1 else r1)"

text \<open>\<^verbatim>\<open>newRow[col] = value > 0 ? Math.log(value) : value\<close>\<close>

definition transformCell :: "string \<Rightarrow> real \<Rightarrow> row \<Rightarrow> row" where
  "transformCell col v newRow = setCell col (Num (if v > 0 then ln v else v)) newRow"

text \<open>
  The \<^verbatim>\<open>for (const col of columns)\<close> loop of the \<^verbatim>\<open>map\<close> callback.  The value is read from
  the input row (\<^verbatim>\<open>row[col]\<close>), the statistics from the input array; \<open>None\<close> is the
  \<^verbatim>\<open>return null\<close> of the action \<^verbatim>\<open>'remove'\<close>, which here does leave the callback.
\<close>

fun outlierLoop :: "builtins \<Rightarrow> row list \<Rightarrow> outlier_config \<Rightarrow> row \<Rightarrow> string list \<Rightarrow> row \<Rightarrow> row option" where
  "outlierLoop B data config row [] newRow = Some newRow"
| "outlierLoop B data config row (col # cols) newRow =
     (case parseFloat B (getCell row col) of
        None \<Rightarrow> outlierLoop B data config row cols newRow
      | Some v \<Rightarrow>
          (let det = detect B data config col v
           in if isOutlier det then
                (case outlierAction config of
                   RemoveAction \<Rightarrow> None
                 | CapAction \<Rightarrow> outlierLoop B data config row cols (capCell col v det newRow)
                 | TransformAction \<Rightarrow> outlierLoop B data config row cols (transformCell col v newRow))
              else outlierLoop B data config row cols newRow))"

definition handleOutliers :: "builtins \<Rightarrow> row list \<Rightarrow> outlier_config \<Rightarrow> row list" where
  "handleOutliers B data config =
     dropNull (map (\<lambda>row. outlierLoop B data config row (outlierColumns config) row) data)"

section \<open>The rule stage\<close>

datatype rule_condition = GreaterThan | LessThan | Equals | NotEquals | Range | Pattern

datatype rule_action = FlagRule | RemoveRule | TransformRule

text \<open>\<^verbatim>\<open>rule.value\<close> is a scalar (the form's text field gives a string) or a two-element
  array \<^verbatim>\<open>[min, max]\<close>.\<close>

datatype rule_value = Scalar cell | Bounds cell cell

record validation_rule =
  ruleColumn :: string
  ruleCondition :: rule_condition
  ruleValue :: rule_value
  ruleAction :: rule_action

text \<open>An element of an array prints as the empty string when it is \<^verbatim>\<open>null\<close> or
  \<^verbatim>\<open>undefined\<close>; the elements are joined by a comma.\<close>

definition elementString :: "builtins \<Rightarrow> cell \<Rightarrow> string" where
  "elementString B v = (if v = Null \<or> v = Undefined then [] else toString B v)"

text \<open>\<^verbatim>\<open>parseFloat(rule.value)\<close>\<close>

definition parseRuleValue :: "builtins \<Rightarrow> rule_value \<Rightarrow> jsnum" where
  "parseRuleValue B rv =
     (case rv of
        Scalar v \<Rightarrow> parseFloat B v
      | Bounds lo hi \<Rightarrow> parseFloatStr B (elementString B lo @ '','' @ elementString B hi))"

text \<open>\<^verbatim>\<open>value !== rule.value\<close>: strict inequality; \<^verbatim>\<open>NaN\<close> differs from itself, and a cell
  is never the array.\<close>

definition strictNotEqual :: "cell \<Rightarrow> rule_value \<Rightarrow> bool" where
  "strictNotEqual v rv =
     (case rv of
        Scalar w \<Rightarrow> (if v = NaN then True else v \<noteq> w)
      | Bounds lo hi \<Rightarrow> True)"

text \<open>\<^verbatim>\<open>const [min, max] = rule.value\<close>: an array gives its elements, a string its first
  two characters (\<^verbatim>\<open>undefined\<close> where it is shorter), anything else is not iterable.\<close>

definition charAt :: "string \<Rightarrow> nat \<Rightarrow> cell" where
  "charAt s i = (if i < length s then Str [s ! i] else Undefined)"

definition destructureBounds :: "rule_value \<Rightarrow> error + cell \<times> cell" where
  "destructureBounds rv =
     (case rv of
        Bounds lo hi \<Rightarrow> Inr (lo, hi)
      | Scalar (Str s) \<Rightarrow> Inr (charAt s 0, charAt s 1)
      | Scalar _ \<Rightarrow> Inl TypeError)"

text \<open>\<^verbatim>\<open>a <= b\<close> and \<^verbatim>\<open>a < b\<close> on numbers that may be \<^verbatim>\<open>NaN\<close>.\<close>

definition numLe :: "jsnum \<Rightarrow> jsnum \<Rightarrow> bool" where
  "numLe a b = (case (a, b) of (Some x, Some y) \<Rightarrow> x \<le> y | _ \<Rightarrow> False)"

definition numLt :: "jsnum \<Rightarrow> jsnum \<Rightarrow> bool" where
  "numLt a b = (case (a, b) of (Some x, Some y) \<Rightarrow> x < y | _ \<Rightarrow> False)"

text \<open>The \<^verbatim>\<open>switch (rule.condition)\<close>: there is no case for \<^verbatim>\<open>'not-equals'\<close> and none for
  \<^verbatim>\<open>'pattern'\<close>, so \<^verbatim>\<open>violatesRule\<close> keeps its initial \<^verbatim>\<open>false\<close>.\<close>

definition violatesRule :: "builtins \<Rightarrow> validation_rule \<Rightarrow> row \<Rightarrow> error + bool" where
  "violatesRule B rule row =
     (let v = getCell row (ruleColumn rule)
      in case ruleCondition rule of
           GreaterThan \<Rightarrow> Inr (numLe (parseFloat B v) (parseRuleValue B (ruleValue rule)))
         | LessThan \<Rightarrow> Inr (numLe (parseRuleValue B (ruleValue rule)) (parseFloat B v))
         | Equals \<Rightarrow> Inr (strictNotEqual v (ruleValue rule))
         | Range \<Rightarrow>
             (case destructureBounds (ruleValue rule) of
                Inl e \<Rightarrow> Inl e
              | Inr (lo, hi) \<Rightarrow>
                  Inr (numLt (parseFloat B v) (toNumber B lo) \<or> numLt (toNumber B hi) (parseFloat B v)))
         | NotEquals \<Rightarrow> Inr False
         | Pattern \<Rightarrow> Inr False)"

text \<open>The callback of \<^verbatim>\<open>data.filter\<close>: the first violated rule with action \<^verbatim>\<open>'remove'\<close>
  drops the row.\<close>

fun keepRow :: "builtins \<Rightarrow> validation_rule list \<Rightarrow> row \<Rightarrow> error + bool" where
  "keepRow B [] row = Inr True"
| "keepRow B (rule # rest) row =
     (case violatesRule B rule row of
        Inl e \<Rightarrow> Inl e
      | Inr violates \<Rightarrow>
          if violates \<and> ruleAction rule = RemoveRule then Inr False else keepRow B rest row)"

fun filterE :: "('a \<Rightarrow> error + bool) \<Rightarrow> 'a list \<Rightarrow> error + 'a list" where
  "filterE p [] = Inr []"
| "filterE p (x # xs) =
     (case p x of
        Inl e \<Rightarrow> Inl e
      | Inr keep \<Rightarrow>
          (case filterE p xs of
             Inl e \<Rightarrow> Inl e
           | Inr ys \<Rightarrow> Inr (if keep then x # ys else ys)))"

definition applyRules :: "builtins \<Rightarrow> row list \<Rightarrow> validation_rule list \<Rightarrow> error + row list" where
  "applyRules B data rs = filterE (keepRow B rs) data"

section \<open>The cleaning pipeline\<close>

text \<open>A section of the configuration that is absent is \<open>None\<close>.\<close>

record cleaning_config =
  imputation :: "imputation_config option"
  outliers :: "outlier_config option"
  rules :: "validation_rule list option"

definition cleanData :: "builtins \<Rightarrow> row list \<Rightarrow> cleaning_config \<Rightarrow> error + row list" where
  "cleanData B data config =
     (case (case imputation config of
              None \<Rightarrow> Inr data
            | Some c \<Rightarrow> handleMissingValues B data c) of
        Inl e \<Rightarrow> Inl e
      | Inr imputed \<Rightarrow>
          (let treated = (case outliers config of
                            None \<Rightarrow> imputed
                          | Some c \<Rightarrow> handleOutliers B imputed c)
           in case rules config of
                None \<Rightarrow> Inr treated
              | Some rs \<Rightarrow> if length rs > 0 then applyRules B treated rs else Inr treated))"

section \<open>Estimation\<close>

record observation =
  obsValue :: real
  obsWeight :: real

record EstimateResult =
  variable :: string
  estimate :: jsnum
  standardError :: jsnum
  marginOfError :: jsnum
  confidenceInterval :: "jsnum \<times> jsnum"
  sampleSize :: nat

text \<open>\<^verbatim>\<open>weightColumn ? parseFloat(row[weightColumn]) || 1 : 1\<close>: an absent or empty column
  name is falsy; so are a parsed weight of \<^verbatim>\<open>NaN\<close> and a parsed weight of \<^verbatim>\<open>0\<close>.\<close>

definition rowWeight :: "builtins \<Rightarrow> string option \<Rightarrow> row \<Rightarrow> real" where
  "rowWeight B weightColumn row =
     (case weightColumn of
        None \<Rightarrow> 1
      | Some w \<Rightarrow>
          if w = [] then 1
          else (case parseFloat B (getCell row w) of
                  None \<Rightarrow> 1
                | Some x \<Rightarrow> if x = 0 then 1 else x))"

text \<open>\<^verbatim>\<open>data.map(row => ({ value, weight })).filter(item => !isNaN(item.value))\<close>\<close>

definition observations :: "builtins \<Rightarrow> row list \<Rightarrow> string \<Rightarrow> string option \<Rightarrow> observation list" where
  "observations B data column weightColumn =
     List.map_filter
       (\<lambda>row. case parseFloat B (getCell row column) of
                 None \<Rightarrow> None
               | Some v \<Rightarrow> Some \<lparr>obsValue = v, obsWeight = rowWeight B weightColumn row\<rparr>)
       data"

text \<open>\<^verbatim>\<open>calculateWeightedMean\<close>: a total weight of 0 gives a number that is not finite.\<close>

definition calculateWeightedMean :: "observation list \<Rightarrow> jsnum" where
  "calculateWeightedMean items =
     (let totalWeightedValue = sum_list (map (\<lambda>item. obsValue item * obsWeight item) items);
          totalWeight = sum_list (map obsWeight items)
      in if totalWeight = 0 then None else Some (totalWeightedValue / totalWeight))"

text \<open>\<^verbatim>\<open>calculateStandardError\<close>: the weighted variance over the total weight, then over the
  count, under the square root.\<close>

definition calculateStandardError :: "observation list \<Rightarrow> jsnum \<Rightarrow> jsnum" where
  "calculateStandardError items mean =
     (case mean of
        None \<Rightarrow> None
      | Some m \<Rightarrow>
          (let totalWeight = sum_list (map obsWeight items);
               weightedSquares = sum_list (map (\<lambda>item. obsWeight item * (obsValue item - m)\<^sup>2) items)
           in if totalWeight = 0 \<or> items = [] then None
              else (let q = weightedSquares / totalWeight / real (length items)
                    in if q < 0 then None else Some (sqrt q))))"

text \<open>\<^verbatim>\<open>getTCriticalValue\<close>: \<^verbatim>\<open>alpha\<close> is a parameter the body does not read.\<close>

definition getTCriticalValue :: "int \<Rightarrow> real \<Rightarrow> real" where
  "getTCriticalValue degreesOfFreedom alpha =
     (if degreesOfFreedom \<ge> 30 then 1.96
      else if degreesOfFreedom \<ge> 20 then 2.086
      else if degreesOfFreedom \<ge> 10 then 2.228
      else 2.571)"

definition estimateColumn :: "builtins \<Rightarrow> row list \<Rightarrow> string option \<Rightarrow> real \<Rightarrow> string \<Rightarrow> EstimateResult option" where
  "estimateColumn B data weightColumn tCritical column =
     (let items = observations B data column weightColumn
      in if items = [] then None
         else
          (let weightedMean = calculateWeightedMean items;
               se = calculateStandardError items weightedMean;
               moe = map_option (\<lambda>e. tCritical * e) se
           in Some \<lparr>variable = column,
                    estimate = weightedMean,
                    standardError = se,
                    marginOfError = moe,
                    confidenceInterval =
                      (case (weightedMean, moe) of
                         (Some m, Some e) \<Rightarrow> (Some (m - e), Some (m + e))
                       | _ \<Rightarrow> (None, None)),
                    sampleSize = length items\<rparr>))"

text \<open>\<^verbatim>\<open>calculateEstimates\<close>: \<^verbatim>\<open>confidenceLevel\<close> defaults to \<^verbatim>\<open>0.95\<close> when it is not
  passed.\<close>

definition calculateEstimates ::
  "builtins \<Rightarrow> row list \<Rightarrow> string list \<Rightarrow> string option \<Rightarrow> real option \<Rightarrow> EstimateResult list" where
  "calculateEstimates B data targetColumns weightColumn confidenceLevel =
     (let alpha = 1 - (case confidenceLevel of None \<Rightarrow> 0.95 | Some c \<Rightarrow> c);
          tCritical = getTCriticalValue (int (length data) - 1) (alpha / 2)
      in List.map_filter (estimateColumn B data weightColumn tCritical) targetColumns)"

section \<open>An instance of the built-ins on decimal integers\<close>

text \<open>
  The examples below are evaluated with the built-ins restricted to decimal integers, where
  they are easy to write down: \<^verbatim>\<open>parseFloat\<close> reads an optional minus sign and the leading
  digits of a string (and gives \<^verbatim>\<open>NaN\<close> when there is none), \<^verbatim>\<open>Number\<close> reads a string that is
  empty (0) or all digits, and \<^verbatim>\<open>String\<close> prints a whole number in decimal.  The examples
  use no string with a fraction or an exponent and no number that is not whole.
\<close>

definition digitChar :: "nat \<Rightarrow> char" where
  "digitChar d = ''0123456789'' ! d"

fun natDigits :: "nat \<Rightarrow> nat \<Rightarrow> string" where
  "natDigits 0 n = []"
| "natDigits (Suc fuel) n = (if n < 10 then [digitChar n] else natDigits fuel (n div 10) @ [digitChar (n mod 10)])"

definition intString :: "real \<Rightarrow> string" where
  "intString x =
     (let n = nat \<lfloor>\<bar>x\<bar>\<rfloor> in (if x < 0 then ''-'' else []) @ natDigits (Suc n) n)"

definition intPrefix :: "string \<Rightarrow> jsnum" where
  "intPrefix s =
     (let neg = (s \<noteq> [] \<and> hd s = CHR ''-'');
          body = (if neg then tl s else s);
          ds = takeWhile isDigit body
      in if ds = [] then None
         else Some (if neg then - real (digitsVal ds) else real (digitsVal ds)))"

definition intWhole :: "string \<Rightarrow> jsnum" where
  "intWhole s = (if list_all isDigit s then Some (real (digitsVal s)) else None)"

definition intBuiltins :: builtins where
  "intBuiltins = \<lparr>parseFloatStr = intPrefix, NumberStr = intWhole, StringNum = intString\<rparr>"

section \<open>Notions used to state the properties of the outlier stage\<close>

text \<open>The bounds of a column under a method whose outlier test is the comparison with
  the bounds (every method but \<^verbatim>\<open>z-score\<close>, whose test is on the quotient).\<close>

definition columnBounds :: "builtins \<Rightarrow> row list \<Rightarrow> outlier_config \<Rightarrow> string \<Rightarrow> jsnum \<times> jsnum" where
  "columnBounds B data config col =
     (case outlierMethod config of
        IQR \<Rightarrow> iqrBounds B data col
      | Winsorization \<Rightarrow> winsorizationBounds B data col (threshold config)
      | _ \<Rightarrow> (None, None))"

text \<open>The number \<^verbatim>\<open>capCell\<close> leaves for a value: the upper bound above it, the lower bound
  below it, the value itself between them.\<close>

definition capValue :: "jsnum \<times> jsnum \<Rightarrow> real \<Rightarrow> real" where
  "capValue bounds v =
     (case snd bounds of
        Some u \<Rightarrow> if v > u then u else (case fst bounds of Some l \<Rightarrow> if v < l then l else v | None \<Rightarrow> v)
      | None \<Rightarrow> (case fst bounds of Some l \<Rightarrow> if v < l then l else v | None \<Rightarrow> v))"

definition orderedBounds :: "jsnum \<times> jsnum \<Rightarrow> bool" where
  "orderedBounds bounds = (case bounds of (Some l, Some u) \<Rightarrow> l \<le> u | _ \<Rightarrow> True)"

section \<open>The engine on a store of objects\<close>

text \<open>
  The definitions above take rows and arrays as values.  To state what the engine does to
  the objects it is given, this section runs the same code on a store: a list of objects,
  an address being an index into it.  An object is a row or an array of references to rows
  (\<^verbatim>\<open>null\<close> is \<open>None\<close>; only the array that \<^verbatim>\<open>map\<close> returns inside a stage holds one).
  \<^verbatim>\<open>{ ...row }\<close>, \<^verbatim>\<open>[...data]\<close>, \<^verbatim>\<open>map\<close> and \<^verbatim>\<open>filter\<close> allocate a new object at the end of
  the store; \<^verbatim>\<open>newRow[col] = v\<close> overwrites the object at the address of \<^verbatim>\<open>newRow\<close>.  An
  exception leaves the store as it is at that point.
\<close>

type_synonym address = nat

datatype object = RowObject row | ArrayObject "address option list"

type_synonym store = "object list"

definition allocate :: "object \<Rightarrow> store \<Rightarrow> address \<times> store" where
  "allocate obj s = (length s, s @ [obj])"

definition rowAt :: "store \<Rightarrow> address \<Rightarrow> row" where
  "rowAt s a =
     (if a < length s then (case s ! a of RowObject r \<Rightarrow> r | ArrayObject es \<Rightarrow> []) else [])"

definition elementsAt :: "store \<Rightarrow> address \<Rightarrow> address option list" where
  "elementsAt s a =
     (if a < length s then (case s ! a of ArrayObject es \<Rightarrow> es | RowObject r \<Rightarrow> []) else [])"

text \<open>The references an array holds, and the rows they lead to: what \<^verbatim>\<open>data.map\<close> and
  \<^verbatim>\<open>data.filter\<close> run over, and what the column statistics read.\<close>

definition rowRefs :: "store \<Rightarrow> address \<Rightarrow> address list" where
  "rowRefs s arr = dropNull (elementsAt s arr)"

definition rowsOf :: "store \<Rightarrow> address \<Rightarrow> row list" where
  "rowsOf s arr = map (rowAt s) (rowRefs s arr)"

text \<open>\<^verbatim>\<open>newRow[col] = v\<close>\<close>

definition assign :: "address \<Rightarrow> string \<Rightarrow> cell \<Rightarrow> store \<Rightarrow> store" where
  "assign a col v s = s[a := RowObject (setCell col v (rowAt s a))]"

text \<open>A callback run over the elements of an array, the store threaded through; the
  second form stops at the first exception.\<close>

fun mapS :: "(address \<Rightarrow> store \<Rightarrow> 'b \<times> store) \<Rightarrow> address list \<Rightarrow> store \<Rightarrow> 'b list \<times> store" where
  "mapS f [] s = ([], s)"
| "mapS f (a # as) s =
     (case f a s of
        (y, s1) \<Rightarrow> (case mapS f as s1 of (ys, s2) \<Rightarrow> (y # ys, s2)))"

fun mapES :: "(address \<Rightarrow> store \<Rightarrow> (error + 'b) \<times> store) \<Rightarrow> address list \<Rightarrow> store
               \<Rightarrow> (error + 'b list) \<times> store" where
  "mapES f [] s = (Inr [], s)"
| "mapES f (a # as) s =
     (case f a s of
        (Inl e, s1) \<Rightarrow> (Inl e, s1)
      | (Inr y, s1) \<Rightarrow>
          (case mapES f as s1 of
             (Inl e, s2) \<Rightarrow> (Inl e, s2)
           | (Inr ys, s2) \<Rightarrow> (Inr (y # ys), s2)))"

text \<open>\<^verbatim>\<open>handleMissingValues\<close>: the loop over the columns writes to the copy at \<open>newRow\<close>
  and reads the statistics from the rows of \<open>data\<close>.\<close>

fun imputeColumnsS ::
  "builtins \<Rightarrow> address \<Rightarrow> address \<Rightarrow> imputation_method \<Rightarrow> address \<Rightarrow> string list \<Rightarrow> store
     \<Rightarrow> (error + unit) \<times> store" where
  "imputeColumnsS B data row m newRow [] s = (Inr (), s)"
| "imputeColumnsS B data row m newRow (col # cols) s =
     (if isMissing (getCell (rowAt s newRow) col) then
        (case m of
           Mean \<Rightarrow>
             imputeColumnsS B data row m newRow cols
               (assign newRow col (numCell (calculateColumnMean B (rowsOf s data) col)) s)
         | Median \<Rightarrow>
             imputeColumnsS B data row m newRow cols
               (assign newRow col (numCell (calculateColumnMedian B (rowsOf s data) col)) s)
         | Mode \<Rightarrow>
             (case calculateColumnMode B (rowsOf s data) col of
                Inl e \<Rightarrow> (Inl e, s)
              | Inr v \<Rightarrow> imputeColumnsS B data row m newRow cols (assign newRow col v s))
         | KNN \<Rightarrow>
             (case knnImputation B (rowsOf s data) (rowAt s row) col
                     \<lparr>k = 5, distanceMetric = Euclidean\<rparr> of
                Inl e \<Rightarrow> (Inl e, s)
              | Inr v \<Rightarrow> imputeColumnsS B data row m newRow cols (assign newRow col v s))
         | ForwardFill \<Rightarrow> imputeColumnsS B data row m newRow cols s
         | BackwardFill \<Rightarrow> imputeColumnsS B data row m newRow cols s
         | Remove \<Rightarrow> imputeColumnsS B data row m newRow cols s)
      else imputeColumnsS B data row m newRow cols s)"

definition imputeRowS ::
  "builtins \<Rightarrow> address \<Rightarrow> imputation_config \<Rightarrow> address \<Rightarrow> store \<Rightarrow> (error + address option) \<times> store" where
  "imputeRowS B data config row s =
     (case allocate (RowObject (rowAt s row)) s of
        (newRow, s1) \<Rightarrow>
          (case imputeColumnsS B data row (imputationMethod config) newRow (imputationColumns config) s1 of
             (Inl e, s2) \<Rightarrow> (Inl e, s2)
           | (Inr u, s2) \<Rightarrow> (Inr (Some newRow), s2)))"

text \<open>The end of a stage: \<^verbatim>\<open>map\<close> has returned a new array of the results, and
  \<^verbatim>\<open>.filter(row => row !== null)\<close> returns a second new array, of those that are no
  \<^verbatim>\<open>null\<close>.\<close>

definition filterNotNullS :: "address option list \<Rightarrow> store \<Rightarrow> address \<times> store" where
  "filterNotNullS mapped s =
     (case allocate (ArrayObject mapped) s of
        (mappedArray, s1) \<Rightarrow> allocate (ArrayObject (filter (\<lambda>e. e \<noteq> None) mapped)) s1)"

definition handleMissingValuesS ::
  "builtins \<Rightarrow> address \<Rightarrow> imputation_config \<Rightarrow> store \<Rightarrow> (error + address) \<times> store" where
  "handleMissingValuesS B data config s =
     (case mapES (imputeRowS B data config) (rowRefs s data) s of
        (Inl e, s1) \<Rightarrow> (Inl e, s1)
      | (Inr mapped, s1) \<Rightarrow>
          (case filterNotNullS mapped s1 of (filtered, s2) \<Rightarrow> (Inr filtered, s2)))"

text \<open>\<^verbatim>\<open>handleOutliers\<close>: the value is read from the input row, the statistics from the
  rows of \<open>data\<close>, and the writes go to the copy at \<open>newRow\<close>.\<close>

definition capCellS :: "address \<Rightarrow> string \<Rightarrow> real \<Rightarrow> detection \<Rightarrow> store \<Rightarrow> store" where
  "capCellS newRow col v det s =
     (let s1 = (if belowBound v (lowerBound det) then assign newRow col (numCell (lowerBound det)) s else s)
      in if aboveBound v (upperBound det) then assign newRow col (numCell (upperBound det)) s1 else s1)"

fun outlierLoopS ::
  "builtins \<Rightarrow> address \<Rightarrow> outlier_config \<Rightarrow> address \<Rightarrow> address \<Rightarrow> string list \<Rightarrow> store
     \<Rightarrow> address option \<times> store" where
  "outlierLoopS B data config row newRow [] s = (Some newRow, s)"
| "outlierLoopS B data config row newRow (col # cols) s =
     (case parseFloat B (getCell (rowAt s row) col) of
        None \<Rightarrow> outlierLoopS B data config row newRow cols s
      | Some v \<Rightarrow>
          (let det = detect B (rowsOf s data) config col v
           in if isOutlier det then
                (case outlierAction config of
                   RemoveAction \<Rightarrow> (None, s)
                 | CapAction \<Rightarrow> outlierLoopS B data config row newRow cols (capCellS newRow col v det s)
                 | TransformAction \<Rightarrow>
                     outlierLoopS B data config row newRow cols
                       (assign newRow col (Num (if v > 0 then ln v else v)) s))
              else outlierLoopS B data config row newRow cols s))"

definition outlierRowS ::
  "builtins \<Rightarrow> address \<Rightarrow> outlier_config \<Rightarrow> address \<Rightarrow> store \<Rightarrow> address option \<times> store" where
  "outlierRowS B data config row s =
     (case allocate (RowObject (rowAt s row)) s of
        (newRow, s1) \<Rightarrow> outlierLoopS B data config row newRow (outlierColumns config) s1)"

definition handleOutliersS :: "builtins \<Rightarrow> address \<Rightarrow> outlier_config \<Rightarrow> store \<Rightarrow> address \<times> store" where
  "handleOutliersS B data config s =
     (case mapS (outlierRowS B data config) (rowRefs s data) s of
        (mapped, s1) \<Rightarrow> filterNotNullS mapped s1)"

text \<open>\<^verbatim>\<open>applyRules\<close>: \<^verbatim>\<open>filter\<close> returns a new array that holds the references of the rows
  kept; it copies no row and writes to none.\<close>

definition applyRulesS ::
  "builtins \<Rightarrow> address \<Rightarrow> validation_rule list \<Rightarrow> store \<Rightarrow> (error + address) \<times> store" where
  "applyRulesS B data rs s =
     (case filterE (\<lambda>a. keepRow B rs (rowAt s a)) (rowRefs s data) of
        Inl e \<Rightarrow> (Inl e, s)
      | Inr kept \<Rightarrow> (case allocate (ArrayObject (map Some kept)) s of (arr, s1) \<Rightarrow> (Inr arr, s1)))"

text \<open>\<^verbatim>\<open>cleanData\<close>: \<^verbatim>\<open>[...data]\<close> first, then the stages that are configured.\<close>

definition cleanDataS ::
  "builtins \<Rightarrow> address \<Rightarrow> cleaning_config \<Rightarrow> store \<Rightarrow> (error + address) \<times> store" where
  "cleanDataS B data config s =
     (case allocate (ArrayObject (elementsAt s data)) s of
        (copied, s0) \<Rightarrow>
          (case (case imputation config of
                   None \<Rightarrow> (Inr copied, s0)
                 | Some c \<Rightarrow> handleMissingValuesS B copied c s0) of
             (Inl e, s1) \<Rightarrow> (Inl e, s1)
           | (Inr imputed, s1) \<Rightarrow>
               (case (case outliers config of
                        None \<Rightarrow> (imputed, s1)
                      | Some c \<Rightarrow> handleOutliersS B imputed c s1) of
                  (treated, s2) \<Rightarrow>
                    (case rules config of
                       None \<Rightarrow> (Inr treated, s2)
                     | Some rs \<Rightarrow>
                         if length rs > 0 then applyRulesS B treated rs s2 else (Inr treated, s2)))))"

text \<open>A later store extends an earlier one when every object of the earlier store is in
  it, at its address and with its value.\<close>

definition extends :: "store \<Rightarrow> store \<Rightarrow> bool" where
  "extends s s' = (take (length s) s' = s)"

text \<open>What a call may do to the store: it leaves every object that was there as it was,
  and the array it returns, if it returns one, is an object that was not there.\<close>

definition framed :: "store \<Rightarrow> (error + address) \<times> store \<Rightarrow> bool" where
  "framed s outcome =
     (extends s (snd outcome)
      \<and> (case fst outcome of Inl e \<Rightarrow> True | Inr a \<Rightarrow> length s \<le> a \<and> a < length (snd outcome)))"


text \<open>An array of a store is well formed when it and the rows it refers to are objects of
  the store.\<close>

definition wellFormed :: "store \<Rightarrow> address \<Rightarrow> bool" where
  "wellFormed s data = (data < length s \<and> list_all (\<lambda>a. a < length s) (rowRefs s data))"

text \<open>A run on the store computes a result on values when it raises the same exception, or
  returns a well-formed array of exactly the rows of the result.\<close>

definition computes :: "error + row list \<Rightarrow> (error + address) \<times> store \<Rightarrow> bool" where
  "computes expected outcome =
     (case expected of
        Inl e \<Rightarrow> fst outcome = Inl e
      | Inr rows \<Rightarrow>
          (case fst outcome of
             Inl e \<Rightarrow> False
           | Inr a \<Rightarrow> rowsOf (snd outcome) a = rows \<and> wellFormed (snd outcome) a))"

text \<open>Whose rows a returned array holds.  It owns its rows when every row it refers to is
  an object that was not in the store before the call; it shares the rows of \<open>data\<close> when
  every row it refers to is one that \<open>data\<close> referred to before the call.\<close>

definition ownsRows :: "store \<Rightarrow> (error + address) \<times> store \<Rightarrow> bool" where
  "ownsRows s outcome =
     (case fst outcome of
        Inl e \<Rightarrow> True
      | Inr a \<Rightarrow> list_all (\<lambda>r. length s \<le> r \<and> r < length (snd outcome)) (rowRefs (snd outcome) a))"

definition sharesRows :: "store \<Rightarrow> address \<Rightarrow> (error + address) \<times> store \<Rightarrow> bool" where
  "sharesRows s data outcome =
     (case fst outcome of
        Inl e \<Rightarrow> True
      | Inr a \<Rightarrow> list_all (\<lambda>r. r \<in> set (rowRefs s data)) (rowRefs (snd outcome) a))"

section \<open>Facts about rows and the exception combinators\<close>

lemma getCell_setCell: "getCell (setCell col v r) c = (if c = col then v else getCell r c)"
  by (simp add: getCell_def setCell_def update_conv)

lemma not_missing_numCell: "\<not> isMissing (numCell x)"
  by (simp add: isMissing_def numCell_def split: option.splits)

lemma dropNull_map_Some: "dropNull (map Some rows) = rows"
  by (induction rows) (simp_all add: dropNull_def List.map_filter_simps)

lemma mapE_total: "(\<And>x. x \<in> set xs \<Longrightarrow> f x = Inr (g x)) \<Longrightarrow> mapE f xs = Inr (map g xs)"
  by (induction xs) simp_all

lemma foldE_total: "(\<And>x s. f x s = Inr (g x s)) \<Longrightarrow> foldE f xs s = Inr (fold g xs s)"
  by (induction xs arbitrary: s) simp_all

lemmas row_defs = getCell_def setCell_def numCell_def isMissing_def dropNull_def List.map_filter_simps

lemmas imputation_defs = handleMissingValues_def imputeRow_def imputeColumn_def

section \<open>The imputation stage: methods that leave every row as it is\<close>

text \<open>For the methods \<^verbatim>\<open>'remove'\<close>, \<^verbatim>\<open>'forward-fill'\<close> and \<^verbatim>\<open>'backward-fill'\<close> the loop
  over the columns changes nothing, whatever the row holds.\<close>

lemma foldE_imputeColumn_unchanged:
  assumes "m = Remove \<or> m = ForwardFill \<or> m = BackwardFill"
  shows "foldE (imputeColumn B data row m) cols newRow = Inr newRow"
  using assms by (induction cols) (auto simp: imputeColumn_def)

lemma handleMissingValues_unchanged:
  assumes "imputationMethod config = Remove \<or> imputationMethod config = ForwardFill
             \<or> imputationMethod config = BackwardFill"
  shows "handleMissingValues B data config = Inr data"
proof -
  have "mapE (imputeRow B data config) data = Inr (map Some data)"
    by (rule mapE_total) (simp add: imputeRow_def foldE_imputeColumn_unchanged [OF assms])
  then show ?thesis
    by (simp add: handleMissingValues_def dropNull_map_Some)
qed

text \<open>
  C1. With the method \<^verbatim>\<open>remove\<close> the imputation stage is to drop every row that has a
  missing marker in a selected column.  The code keeps such a row: on the one-row dataset
  \<^verbatim>\<open>[{x: null}]\<close> with the column \<^verbatim>\<open>x\<close> selected, the output is the input, where the
  claim has the empty dataset.
\<close>

theorem remove_keeps_row_with_missing_cell:
  "handleMissingValues intBuiltins [[(''x'', Null)]]
     \<lparr>imputationMethod = Remove, imputationColumns = [''x'']\<rparr> = Inr [[(''x'', Null)]]"
  by (simp add: imputation_defs row_defs)

text \<open>
  C6. With the method \<^verbatim>\<open>forward-fill\<close> (\<^verbatim>\<open>backward-fill\<close>) a missing cell is to take the
  nearest non-missing value before (after) it in its column.  The code fills nothing: on
  \<^verbatim>\<open>[{x: 1}, {x: null}, {x: 3}]\<close> with the column \<^verbatim>\<open>x\<close> selected, both methods return
  the input, the missing cell still \<^verbatim>\<open>null\<close>.
\<close>

theorem forward_fill_leaves_missing_cell:
  "handleMissingValues intBuiltins [[(''x'', Num 1)], [(''x'', Null)], [(''x'', Num 3)]]
     \<lparr>imputationMethod = ForwardFill, imputationColumns = [''x'']\<rparr>
     = Inr [[(''x'', Num 1)], [(''x'', Null)], [(''x'', Num 3)]]
   \<and> handleMissingValues intBuiltins [[(''x'', Num 1)], [(''x'', Null)], [(''x'', Num 3)]]
     \<lparr>imputationMethod = BackwardFill, imputationColumns = [''x'']\<rparr>
     = Inr [[(''x'', Num 1)], [(''x'', Null)], [(''x'', Num 3)]]"
  by (simp add: imputation_defs row_defs)

section \<open>Mean imputation\<close>

text \<open>The loop over the columns, for the method \<^verbatim>\<open>mean\<close>: a column of the list whose cell
  is missing in the row ends with the column mean of the input array, every other cell is
  the row's.  The mean is no missing marker, so a column listed twice is filled once.\<close>

lemma foldE_imputeColumn_Mean:
  "\<exists>r. foldE (imputeColumn B data row Mean) cols newRow = Inr r \<and>
       (\<forall>c. getCell r c =
          (if c \<in> set cols \<and> isMissing (getCell newRow c)
           then numCell (calculateColumnMean B data c) else getCell newRow c))"
proof (induction cols arbitrary: newRow)
  case Nil
  show ?case by simp
next
  case (Cons x xs)
  define filled where "filled = setCell x (numCell (calculateColumnMean B data x)) newRow"
  show ?case
  proof (cases "isMissing (getCell newRow x)")
    case True
    from Cons.IH [of filled] obtain r where
      r: "foldE (imputeColumn B data row Mean) xs filled = Inr r"
      and cells: "\<And>c. getCell r c =
          (if c \<in> set xs \<and> isMissing (getCell filled c)
           then numCell (calculateColumnMean B data c) else getCell filled c)"
      by blast
    have "foldE (imputeColumn B data row Mean) (x # xs) newRow = Inr r"
      using True r by (simp add: imputeColumn_def filled_def)
    moreover have "getCell r c =
          (if c \<in> set (x # xs) \<and> isMissing (getCell newRow c)
           then numCell (calculateColumnMean B data c) else getCell newRow c)" for c
      using True by (auto simp: cells filled_def getCell_setCell not_missing_numCell)
    ultimately show ?thesis by blast
  next
    case False
    from Cons.IH [of newRow] obtain r where
      r: "foldE (imputeColumn B data row Mean) xs newRow = Inr r"
      and cells: "\<And>c. getCell r c =
          (if c \<in> set xs \<and> isMissing (getCell newRow c)
           then numCell (calculateColumnMean B data c) else getCell newRow c)"
      by blast
    have "foldE (imputeColumn B data row Mean) (x # xs) newRow = Inr r"
      using False r by (simp add: imputeColumn_def)
    moreover have "getCell r c =
          (if c \<in> set (x # xs) \<and> isMissing (getCell newRow c)
           then numCell (calculateColumnMean B data c) else getCell newRow c)" for c
      using False by (auto simp: cells)
    ultimately show ?thesis by blast
  qed
qed

lemma mapE_pointwise:
  assumes "\<And>x. x \<in> set xs \<Longrightarrow> \<exists>y. f x = Inr y \<and> P x y"
  shows "\<exists>ys. mapE f xs = Inr ys \<and> length ys = length xs \<and> (\<forall>i < length xs. P (xs ! i) (ys ! i))"
  using assms
proof (induction xs)
  case Nil
  show ?case by simp
next
  case (Cons x xs)
  from Cons.prems [of x] obtain y where y: "f x = Inr y" "P x y" by auto
  from Cons.IH Cons.prems obtain ys where
    ys: "mapE f xs = Inr ys" "length ys = length xs" "\<forall>i < length xs. P (xs ! i) (ys ! i)"
    by auto
  have "\<forall>i < length (x # xs). P ((x # xs) ! i) ((y # ys) ! i)"
    using y(2) ys(3) by (auto simp: nth_Cons split: nat.splits)
  then show ?case using y(1) ys(1,2) by auto
qed

text \<open>
  C2. Mean imputation on a selected column replaces each missing cell with the arithmetic
  mean of the values of that column that parse as numbers, taken over the input rows of the
  stage: the stage returns as many rows as it was given, and in row \<open>i\<close> of the output a
  selected column whose input cell was missing holds the sum of the column's numeric input
  values over their count (\<^verbatim>\<open>NaN\<close> when the column has none).  The value depends on the
  input array and the column only, not on the row or on the rows already filled.
\<close>

theorem mean_imputation_uses_column_mean:
  assumes "imputationMethod config = Mean"
  shows "\<exists>out. handleMissingValues B data config = Inr out \<and> length out = length data \<and>
           (\<forall>i < length data. \<forall>col \<in> set (imputationColumns config).
              isMissing (getCell (data ! i) col) \<longrightarrow>
              getCell (out ! i) col =
                (if numericValues B data col = [] then NaN
                 else Num (sum_list (numericValues B data col)
                           / real (length (numericValues B data col)))))"
proof -
  let ?mean = "\<lambda>col. if numericValues B data col = [] then NaN
                 else Num (sum_list (numericValues B data col)
                           / real (length (numericValues B data col)))"
  let ?P = "\<lambda>row r. \<exists>newRow. r = Some newRow \<and>
              (\<forall>col \<in> set (imputationColumns config).
                 isMissing (getCell row col) \<longrightarrow> getCell newRow col = ?mean col)"
  have mean: "numCell (calculateColumnMean B data col) = ?mean col" for col
    by (simp add: calculateColumnMean_def numCell_def Let_def)
  have "\<exists>r. imputeRow B data config row = Inr r \<and> ?P row r" for row
    using foldE_imputeColumn_Mean [of B data row "imputationColumns config" row]
    by (auto simp: imputeRow_def assms mean)
  then obtain rows where
    rows: "mapE (imputeRow B data config) data = Inr rows" "length rows = length data"
      "\<forall>i < length data. ?P (data ! i) (rows ! i)"
    using mapE_pointwise [of data "imputeRow B data config" ?P] by blast
  from rows(2,3) have "rows = map Some (map the rows)"
    by (intro nth_equalityI) auto
  then have out: "dropNull rows = map the rows"
    using dropNull_map_Some [of "map the rows"] by simp
  have "\<forall>i < length data. \<forall>col \<in> set (imputationColumns config).
          isMissing (getCell (data ! i) col) \<longrightarrow> getCell (map the rows ! i) col = ?mean col"
    using rows(2,3) by auto
  then show ?thesis
    using rows(1,2) out by (simp add: handleMissingValues_def)
qed

text \<open>The example of the specification: on \<^verbatim>\<open>[{x:1},{x:2},{x:3},{x:null},{x:5}]\<close> the
  missing cell becomes \<open>2.75\<close>.\<close>

theorem mean_imputation_example:
  "imputationMethod \<lparr>imputationMethod = Mean, imputationColumns = [''x'']\<rparr> = Mean
   \<and> isMissing (getCell ([[(''x'', Num 1)], [(''x'', Num 2)], [(''x'', Num 3)], [(''x'', Null)],
                          [(''x'', Num 5)]] ! 3) ''x'')
   \<and> (\<exists>out. handleMissingValues intBuiltins
               [[(''x'', Num 1)], [(''x'', Num 2)], [(''x'', Num 3)], [(''x'', Null)], [(''x'', Num 5)]]
               \<lparr>imputationMethod = Mean, imputationColumns = [''x'']\<rparr> = Inr out
            \<and> length out = 5 \<and> getCell (out ! 3) ''x'' = Num 2.75)"
proof -
  let ?config = "\<lparr>imputationMethod = Mean, imputationColumns = [''x'']\<rparr>"
  let ?data = "[[(''x'', Num 1)], [(''x'', Num 2)], [(''x'', Num 3)], [(''x'', Null)], [(''x'', Num 5)]]"
  have m: "imputationMethod ?config = Mean" by simp
  have missing: "isMissing (getCell (?data ! 3) ''x'')"
    by (simp add: row_defs)
  have vals: "numericValues intBuiltins ?data ''x'' = [1, 2, 3, 5]"
    by (simp add: numericValues_def row_defs)
  from mean_imputation_uses_column_mean [OF m, of intBuiltins ?data] obtain out where
    out: "handleMissingValues intBuiltins ?data ?config = Inr out" "length out = length ?data"
    and cells: "\<forall>i < length ?data. \<forall>col \<in> set (imputationColumns ?config).
              isMissing (getCell (?data ! i) col) \<longrightarrow>
              getCell (out ! i) col =
                (if numericValues intBuiltins ?data col = [] then NaN
                 else Num (sum_list (numericValues intBuiltins ?data col)
                           / real (length (numericValues intBuiltins ?data col))))"
    by blast
  from cells [rule_format, of 3 "''x''"] missing have "getCell (out ! 3) ''x'' = Num 2.75"
    by (simp add: vals)
  with out m missing show ?thesis by simp
qed

section \<open>The outlier stage with the method \<^verbatim>\<open>iqr\<close>\<close>

lemmas outlier_defs = handleOutliers_def detect_def iqrDetection_def iqrBounds_def
  winsorizationDetection_def winsorizationBounds_def lowerPercentile_def upperPercentile_def
  zScoreDetection_def capCell_def belowBound_def aboveBound_def valueAt_def noDetection_def
  calculateColumnMean_def calculateColumnStd_def numericValues_def

text \<open>The bounds of the method \<^verbatim>\<open>iqr\<close> are a function of the column alone: whatever
  threshold is configured, the detection is the same.\<close>

lemma iqr_detection_ignores_threshold:
  assumes "outlierMethod config = IQR"
  shows "detect B data (config\<lparr>threshold := t\<rparr>) col v = detect B data config col v"
  using assms by (simp add: detect_def)

text \<open>
  C3. Under the method \<^verbatim>\<open>iqr\<close> the bounds are to be \<open>[Q1 - t * IQR, Q3 + t * IQR]\<close> for
  the configured threshold \<open>t\<close>.  The code uses the factor 1.5 whatever \<open>t\<close> is.  On the
  column \<open>1, 2, 3, 4, 8\<close> the quartiles are \<open>Q1 = 2\<close> and \<open>Q3 = 4\<close>; with \<open>t = 3\<close> the
  claim's upper bound is 10 and the value 8 is no outlier, while the code computes the
  bounds \<open>[-1, 7]\<close> and caps 8 to 7.
\<close>

theorem iqr_uses_factor_1_5_not_configured_threshold:
  "iqrBounds intBuiltins
     [[(''x'', Num 1)], [(''x'', Num 2)], [(''x'', Num 3)], [(''x'', Num 4)], [(''x'', Num 8)]] ''x''
     = (Some (- 1), Some 7)
   \<and> handleOutliers intBuiltins
     [[(''x'', Num 1)], [(''x'', Num 2)], [(''x'', Num 3)], [(''x'', Num 4)], [(''x'', Num 8)]]
     \<lparr>outlierMethod = IQR, threshold = ThresholdNumber 3, outlierAction = CapAction,
      outlierColumns = [''x'']\<rparr>
     = [[(''x'', Num 1)], [(''x'', Num 2)], [(''x'', Num 3)], [(''x'', Num 4)], [(''x'', Num 7)]]"
  by (simp add: outlier_defs row_defs Let_def)

section \<open>The rule stage\<close>

text \<open>A rule with the condition \<^verbatim>\<open>not-equals\<close> or \<^verbatim>\<open>pattern\<close> is never violated, so a list
  of such rules keeps every row.\<close>

lemma keepRow_unhandled_conditions:
  assumes "list_all (\<lambda>rule. ruleCondition rule = NotEquals \<or> ruleCondition rule = Pattern) rs"
  shows "keepRow B rs row = Inr True"
  using assms by (induction rs) (auto simp: violatesRule_def)

lemma filterE_keep_all: "(\<And>x. x \<in> set xs \<Longrightarrow> p x = Inr True) \<Longrightarrow> filterE p xs = Inr xs"
  by (induction xs) simp_all

lemma applyRules_unhandled_conditions:
  assumes "list_all (\<lambda>rule. ruleCondition rule = NotEquals \<or> ruleCondition rule = Pattern) rs"
  shows "applyRules B data rs = Inr data"
  by (simp add: applyRules_def filterE_keep_all keepRow_unhandled_conditions [OF assms])

text \<open>
  C7. A rule with the condition \<^verbatim>\<open>not-equals\<close> and the action \<^verbatim>\<open>remove\<close> is to drop
  exactly the rows whose value in the rule's column equals the rule's value.  The code
  drops none: on \<^verbatim>\<open>[{a: 1}, {a: 2}]\<close> with the rule
  \<^verbatim>\<open>{column: 'a', condition: 'not-equals', value: 1, action: 'remove'}\<close> both rows are
  kept, where the claim drops the first.
\<close>

theorem not_equals_rule_drops_no_row:
  "applyRules intBuiltins [[(''a'', Num 1)], [(''a'', Num 2)]]
     [\<lparr>ruleColumn = ''a'', ruleCondition = NotEquals, ruleValue = Scalar (Num 1),
       ruleAction = RemoveRule\<rparr>]
     = Inr [[(''a'', Num 1)], [(''a'', Num 2)]]"
  by (simp add: applyRules_def violatesRule_def row_defs)

section \<open>Estimation\<close>

text \<open>No row is left out of the observations for its weight cell: the observations are
  the rows whose target cell parses, in order.\<close>

lemma observations_values:
  "map obsValue (observations B data column weightColumn) = numericValues B data column"
  by (induction data)
     (simp_all add: observations_def numericValues_def List.map_filter_simps split: option.splits)

text \<open>The weight of a row is its parsed weight cell when that is a number other than 0.\<close>

lemma rowWeight_nonzero:
  assumes "w \<noteq> []" and "parseFloat B (getCell row w) = Some x" and "x \<noteq> 0"
  shows "rowWeight B (Some w) row = x"
  using assms by (simp add: rowWeight_def)

text \<open>
  C4. The weight of an observation is to be the parsed value of the weight cell whenever
  the weight column is set and the cell parses as a number, a parsed weight of 0 included.
  The code gives weight 1 to a row whose weight cell parses to 0: on \<^verbatim>\<open>[{y: 10, w: 0}]\<close>
  with the target column \<^verbatim>\<open>y\<close> and the weight column \<^verbatim>\<open>w\<close> the pair is
  \<open>(10, 1)\<close>, where the claim has \<open>(10, 0)\<close>.
\<close>

theorem zero_weight_becomes_one:
  "observations intBuiltins [[(''y'', Num 10), (''w'', Num 0)]] ''y'' (Some ''w'')
     = [\<lparr>obsValue = 10, obsWeight = 1\<rparr>]"
  by (simp add: observations_def rowWeight_def row_defs)

text \<open>
  C5. For a fixed dataset, list of target columns and weight column, the estimates do not
  depend on the confidence level: any two confidence levels (either may be left out, which
  stands for 0.95) give the same list of results, every field included.
\<close>

theorem estimates_independent_of_confidence_level:
  "calculateEstimates B data targetColumns weightColumn level1
     = calculateEstimates B data targetColumns weightColumn level2"
  by (simp add: calculateEstimates_def getTCriticalValue_def)

section \<open>Mode imputation and the categorical branch of KNN imputation\<close>

lemma set_objectKeys: "set (objectKeys obj) = fst ` set obj"
  by (auto simp: objectKeys_def Let_def)

lemma keys_foldl_countBy:
  "fst ` set (foldl (\<lambda>freq v. let key = toString B v
        in AList.update key (case map_of freq key of None \<Rightarrow> 1 | Some n \<Rightarrow> n + 1) freq) acc vals)
     = fst ` set acc \<union> toString B ` set vals"
  by (induction vals arbitrary: acc) (auto simp: Let_def dom_update)

lemma keys_countBy: "set (objectKeys (countBy B vals)) = toString B ` set vals"
  using keys_foldl_countBy [of B "[]" vals] by (simp add: set_objectKeys countBy_def)

lemma foldl_choice_in_set: "foldl (\<lambda>a b. if P a b then a else b) x xs \<in> set (x # xs)"
  by (induction xs arbitrary: x) auto

text \<open>On a frequency object with a key the reduction raises nothing and returns one of
  the keys.\<close>

lemma mostFrequentKey_is_key:
  assumes "objectKeys freq \<noteq> []"
  shows "\<exists>key. mostFrequentKey freq = Inr key \<and> key \<in> set (objectKeys freq)"
proof (cases "objectKeys freq")
  case Nil
  with assms show ?thesis by simp
next
  case (Cons key1 rest)
  let ?pick = "foldl (\<lambda>a b. if frequencyOf freq a > frequencyOf freq b then a else b) key1 rest"
  have "mostFrequentKey freq = Inr ?pick"
    by (simp add: mostFrequentKey_def Cons)
  moreover have "?pick \<in> set (objectKeys freq)"
    unfolding Cons by (rule foldl_choice_in_set)
  ultimately show ?thesis by blast
qed

lemma mostFrequentKey_countBy:
  assumes "vals \<noteq> []"
  shows "\<exists>key. mostFrequentKey (countBy B vals) = Inr key \<and> key \<in> set (objectKeys (countBy B vals))"
proof (rule mostFrequentKey_is_key)
  from assms have "toString B ` set vals \<noteq> {}" by simp
  then have "set (objectKeys (countBy B vals)) \<noteq> {}" by (simp add: keys_countBy)
  then show "objectKeys (countBy B vals) \<noteq> []" by auto
qed

lemma modeValues_nonempty:
  assumes "r \<in> set data" and "\<not> isMissing (getCell r col)"
  shows "modeValues data col \<noteq> []"
proof -
  from assms(2) have "getCell r col \<noteq> Null \<and> getCell r col \<noteq> Undefined"
    by (simp add: isMissing_def)
  with assms(1) have "getCell r col \<in> set (modeValues data col)"
    by (auto simp: modeValues_def)
  then show ?thesis by auto
qed

lemma nearestNeighbors_nonempty:
  assumes "completeRows data col \<noteq> []" and "0 < k options"
  shows "nearestNeighbors B data targetRow col options \<noteq> []"
proof -
  let ?sorted = "sort_key (\<lambda>n. distanceKey (snd n))
     (map (\<lambda>r. (r, calculateDistance B targetRow r (numericColumns B data targetRow col)
                     (distanceMetric options))) (completeRows data col))"
  have "length ?sorted = length (completeRows data col)" by simp
  with assms(1) have "0 < length ?sorted" by simp
  with assms(2) have "take (min (k options) (length ?sorted)) ?sorted \<noteq> []"
    by (simp del: length_sort)
  then show ?thesis by (simp add: nearestNeighbors_def Let_def)
qed

text \<open>
  C10. When the target column has at least one value that is no missing marker, the
  value that mode imputation computes for it is a string, a key of the frequency object of
  the column's values, whatever the type of the values counted; and the value that KNN
  imputation computes on its categorical branch (the target cell does not parse as a
  number) is a string, a key of the frequency object of the neighbours' values.
\<close>

theorem mode_imputes_a_string_key:
  assumes "\<exists>r \<in> set data. \<not> isMissing (getCell r col)"
  shows "(\<exists>key. calculateColumnMode B data col = Inr (Str key)
            \<and> key \<in> set (objectKeys (countBy B (modeValues data col))))
       \<and> (parseFloat B (getCell targetRow col) = None \<and> 0 < k options \<longrightarrow>
            (\<exists>key. knnImputation B data targetRow col options = Inr (Str key)
               \<and> key \<in> set (objectKeys (countBy B
                     (map (\<lambda>n. getCell (fst n) col)
                        (nearestNeighbors B data targetRow col options))))))"
proof (intro conjI impI)
  from assms obtain r where r: "r \<in> set data" "\<not> isMissing (getCell r col)" by blast
  from mostFrequentKey_countBy [OF modeValues_nonempty [OF r], of B]
  show "\<exists>key. calculateColumnMode B data col = Inr (Str key)
            \<and> key \<in> set (objectKeys (countBy B (modeValues data col)))"
    by (auto simp: calculateColumnMode_def)
next
  assume branch: "parseFloat B (getCell targetRow col) = None \<and> 0 < k options"
  let ?cells = "map (\<lambda>n. getCell (fst n) col) (nearestNeighbors B data targetRow col options)"
  from assms have complete: "completeRows data col \<noteq> []"
    by (auto simp: completeRows_def filter_empty_conv)
  with branch have "?cells \<noteq> []"
    by (simp add: nearestNeighbors_nonempty)
  from mostFrequentKey_countBy [OF this, of B] obtain key where
    key: "mostFrequentKey (countBy B ?cells) = Inr key" "key \<in> set (objectKeys (countBy B ?cells))"
    by blast
  have "knnImputation B data targetRow col options = Inr (Str key)"
    using complete branch key(1) by (simp add: knnImputation_def Let_def)
  with key(2) show "\<exists>key. knnImputation B data targetRow col options = Inr (Str key)
               \<and> key \<in> set (objectKeys (countBy B ?cells))"
    by blast
qed

text \<open>A numeric column: on \<^verbatim>\<open>[{x: 1}, {x: 1}, {x: 2}, {x: null}]\<close> both methods put the
  string \<^verbatim>\<open>"1"\<close> into the last row, whose other rows hold numbers.\<close>

lemmas mode_defs = calculateColumnMode_def modeValues_def countBy_def mostFrequentKey_def
  objectKeys_def frequencyOf_def isArrayIndex_def isDigit_def digitsVal_def
  intBuiltins_def intString_def digitChar_def

lemmas knn_defs = knnImputation_def completeRows_def nearestNeighbors_def numericColumns_def
  calculateDistance_def distanceStep_def distanceKey_def looksNumeric_def

theorem mode_imputes_a_string_key_example:
  "\<not> isMissing (getCell [(''x'', Num 1)] ''x'')
   \<and> parseFloat intBuiltins (getCell [(''x'', Null)] ''x'') = None
   \<and> calculateColumnMode intBuiltins
        [[(''x'', Num 1)], [(''x'', Num 1)], [(''x'', Num 2)], [(''x'', Null)]] ''x'' = Inr (Str ''1'')
   \<and> knnImputation intBuiltins
        [[(''x'', Num 1)], [(''x'', Num 1)], [(''x'', Num 2)], [(''x'', Null)]] [(''x'', Null)] ''x''
        \<lparr>k = 5, distanceMetric = Euclidean\<rparr> = Inr (Str ''1'')
   \<and> handleMissingValues intBuiltins
        [[(''x'', Num 1)], [(''x'', Num 1)], [(''x'', Num 2)], [(''x'', Null)]]
        \<lparr>imputationMethod = Mode, imputationColumns = [''x'']\<rparr>
        = Inr [[(''x'', Num 1)], [(''x'', Num 1)], [(''x'', Num 2)], [(''x'', Str ''1'')]]
   \<and> handleMissingValues intBuiltins
        [[(''x'', Num 1)], [(''x'', Num 1)], [(''x'', Num 2)], [(''x'', Null)]]
        \<lparr>imputationMethod = KNN, imputationColumns = [''x'']\<rparr>
        = Inr [[(''x'', Num 1)], [(''x'', Num 1)], [(''x'', Num 2)], [(''x'', Str ''1'')]]"
proof -
  let ?data = "[[(''x'', Num 1)], [(''x'', Num 1)], [(''x'', Num 2)], [(''x'', Null)]]"
  let ?options = "\<lparr>k = 5, distanceMetric = Euclidean\<rparr>"
  have present: "\<not> isMissing (getCell [(''x'', Num 1)] ''x'')"
    by (simp add: row_defs)
  then have some: "\<exists>r \<in> set ?data. \<not> isMissing (getCell r ''x'')"
    by simp
  have branch: "parseFloat intBuiltins (getCell [(''x'', Null)] ''x'') = None \<and> 0 < k ?options"
    by (simp add: row_defs)
  have neighbors: "map (\<lambda>n. getCell (fst n) ''x'')
       (nearestNeighbors intBuiltins ?data [(''x'', Null)] ''x'' ?options) = [Num 1, Num 1, Num 2]"
    by (simp add: knn_defs mode_defs row_defs less_eq_prod_def)
  from mode_imputes_a_string_key [OF some, of intBuiltins "[(''x'', Null)]" ?options] branch
  obtain key1 key2 where
    mode: "calculateColumnMode intBuiltins ?data ''x'' = Inr (Str key1)"
    and knn: "knnImputation intBuiltins ?data [(''x'', Null)] ''x'' ?options = Inr (Str key2)"
    by blast
  have mode1: "calculateColumnMode intBuiltins ?data ''x'' = Inr (Str ''1'')"
    by (simp add: mode_defs row_defs)
  have knn1: "knnImputation intBuiltins ?data [(''x'', Null)] ''x'' ?options = Inr (Str ''1'')"
    using neighbors by (simp add: knnImputation_def completeRows_def mode_defs row_defs)
  have stage1: "handleMissingValues intBuiltins ?data
        \<lparr>imputationMethod = Mode, imputationColumns = [''x'']\<rparr>
        = Inr [[(''x'', Num 1)], [(''x'', Num 1)], [(''x'', Num 2)], [(''x'', Str ''1'')]]"
    by (simp add: imputation_defs mode1) (simp add: row_defs)
  have stage2: "handleMissingValues intBuiltins ?data
        \<lparr>imputationMethod = KNN, imputationColumns = [''x'']\<rparr>
        = Inr [[(''x'', Num 1)], [(''x'', Num 1)], [(''x'', Num 2)], [(''x'', Str ''1'')]]"
    by (simp add: imputation_defs getCell_def isMissing_def knn1 [unfolded getCell_def])
       (simp add: row_defs)
  from present branch mode knn mode1 knn1 stage1 stage2 show ?thesis by simp
qed

section \<open>Capping outliers twice\<close>

text \<open>Every method but \<^verbatim>\<open>z-score\<close> tests a value against the bounds of its column.\<close>

lemma detect_by_bounds:
  assumes "outlierMethod config \<noteq> ZScore"
  shows "detect B data config col v =
           \<lparr>isOutlier = (belowBound v (fst (columnBounds B data config col))
                          \<or> aboveBound v (snd (columnBounds B data config col))),
            lowerBound = fst (columnBounds B data config col),
            upperBound = snd (columnBounds B data config col)\<rparr>"
  using assms
  by (cases "outlierMethod config")
     (simp_all add: detect_def columnBounds_def iqrDetection_def winsorizationDetection_def
        noDetection_def belowBound_def aboveBound_def Let_def)

lemma getCell_capCell:
  assumes "belowBound v (fst bs) \<or> aboveBound v (snd bs)"
  shows "getCell (capCell col v \<lparr>isOutlier = True, lowerBound = fst bs, upperBound = snd bs\<rparr> newRow) c
           = (if c = col then Num (capValue bs v) else getCell newRow c)"
  using assms
  by (auto simp: capCell_def capValue_def getCell_setCell belowBound_def aboveBound_def numCell_def Let_def
           split: option.splits)

lemma capValue_inside:
  assumes "\<not> belowBound v (fst bs)" and "\<not> aboveBound v (snd bs)"
  shows "capValue bs v = v"
  using assms by (auto simp: capValue_def belowBound_def aboveBound_def split: option.splits)

lemma capValue_within_bounds:
  assumes "orderedBounds bs"
  shows "\<not> belowBound (capValue bs v) (fst bs) \<and> \<not> aboveBound (capValue bs v) (snd bs)"
  using assms
  by (cases bs) (auto simp: capValue_def belowBound_def aboveBound_def orderedBounds_def split: option.splits)

lemma capValue_mono:
  assumes "orderedBounds bs" and "x \<le> y"
  shows "capValue bs x \<le> capValue bs y"
  using assms
  by (cases bs) (auto simp: capValue_def orderedBounds_def split: option.splits)

text \<open>The loop with the action \<^verbatim>\<open>cap\<close>: no row is dropped, and a cell of the result is
  the capped value where the column is listed and the input cell is an outlier, and the
  cell of the row being built otherwise.\<close>

lemma outlierLoop_cap:
  assumes "outlierAction config = CapAction" and "outlierMethod config \<noteq> ZScore"
  shows "\<exists>r. outlierLoop B data config row cols newRow = Some r \<and>
           (\<forall>c. getCell r c =
              (case parseFloat B (getCell row c) of
                 None \<Rightarrow> getCell newRow c
               | Some v \<Rightarrow>
                   if c \<in> set cols \<and> (belowBound v (fst (columnBounds B data config c))
                                        \<or> aboveBound v (snd (columnBounds B data config c)))
                   then Num (capValue (columnBounds B data config c) v)
                   else getCell newRow c))"
proof (induction cols arbitrary: newRow)
  case Nil
  show ?case by (simp split: option.splits)
next
  case (Cons x xs)
  let ?bs = "\<lambda>c. columnBounds B data config c"
  let ?out = "\<lambda>c v. belowBound v (fst (?bs c)) \<or> aboveBound v (snd (?bs c))"
  let ?cell = "\<lambda>cols newRow c. case parseFloat B (getCell row c) of
                 None \<Rightarrow> getCell newRow c
               | Some v \<Rightarrow> if c \<in> set cols \<and> ?out c v then Num (capValue (?bs c) v)
                            else getCell newRow c"
  show ?case
  proof (cases "parseFloat B (getCell row x)")
    case None
    from Cons.IH [of newRow] obtain r where
      r: "outlierLoop B data config row xs newRow = Some r" "\<And>c. getCell r c = ?cell xs newRow c"
      by blast
    have "outlierLoop B data config row (x # xs) newRow = Some r"
      using None r(1) by simp
    moreover have "getCell r c = ?cell (x # xs) newRow c" for c
      using None by (cases "c = x") (simp_all add: r(2) split: option.splits)
    ultimately show ?thesis by blast
  next
    case (Some v)
    show ?thesis
    proof (cases "?out x v")
      case False
      from Cons.IH [of newRow] obtain r where
        r: "outlierLoop B data config row xs newRow = Some r" "\<And>c. getCell r c = ?cell xs newRow c"
        by blast
      have "outlierLoop B data config row (x # xs) newRow = Some r"
        using Some False r(1) by (simp add: detect_by_bounds [OF assms(2)])
      moreover have "getCell r c = ?cell (x # xs) newRow c" for c
        using Some False by (cases "c = x") (simp_all add: r(2) split: option.splits)
      ultimately show ?thesis by blast
    next
      case True
      let ?capped = "capCell x v \<lparr>isOutlier = True, lowerBound = fst (?bs x), upperBound = snd (?bs x)\<rparr> newRow"
      from Cons.IH [of ?capped] obtain r where
        r: "outlierLoop B data config row xs ?capped = Some r" "\<And>c. getCell r c = ?cell xs ?capped c"
        by blast
      have "outlierLoop B data config row (x # xs) newRow = Some r"
        using Some True r(1) assms(1) by (simp add: detect_by_bounds [OF assms(2)])
      moreover have "getCell r c = ?cell (x # xs) newRow c" for c
        using Some True
        by (cases "c = x") (auto simp: r(2) getCell_capCell [OF True] split: option.splits)
      ultimately show ?thesis by blast
    qed
  qed
qed

text \<open>A row none of whose listed cells is an outlier leaves the loop as it entered.\<close>

lemma outlierLoop_no_outlier:
  assumes "\<And>c v. c \<in> set cols \<Longrightarrow> parseFloat B (getCell row c) = Some v
             \<Longrightarrow> \<not> isOutlier (detect B data config c v)"
  shows "outlierLoop B data config row cols newRow = Some newRow"
  using assms by (induction cols) (auto split: option.splits)

lemma sort_map_mono:
  fixes f :: "real \<Rightarrow> real"
  assumes "\<And>x y. x \<le> y \<Longrightarrow> f x \<le> f y"
  shows "sort (map f xs) = map f (sort xs)"
proof (rule properties_for_sort)
  show "mset (map f (sort xs)) = mset (map f xs)" by simp
  show "sorted (map f (sort xs))"
    unfolding sorted_map
    by (rule sorted_wrt_mono_rel [OF _ sorted_sort]) (simp add: assms)
qed
text \<open>The bounds of a column are ordered: the quartiles are, and so are the two
  percentile values when the lower percentile is at most the upper one.\<close>

lemma quartile_indices:
  assumes "vals \<noteq> []"
  shows "nat \<lfloor>real (length vals) * 0.25\<rfloor> \<le> nat \<lfloor>real (length vals) * 0.75\<rfloor>"
    and "nat \<lfloor>real (length vals) * 0.75\<rfloor> < length vals"
proof -
  have "real (length vals) * 0.25 \<le> real (length vals) * 0.75" by simp
  then show "nat \<lfloor>real (length vals) * 0.25\<rfloor> \<le> nat \<lfloor>real (length vals) * 0.75\<rfloor>"
    by (intro nat_mono floor_mono)
  from assms have "real (length vals) * 0.75 < real (length vals)" by simp
  then have "\<lfloor>real (length vals) * 0.75\<rfloor> < int (length vals)"
    by (simp add: floor_less_iff)
  moreover have "0 \<le> \<lfloor>real (length vals) * 0.75\<rfloor>" by simp
  ultimately show "nat \<lfloor>real (length vals) * 0.75\<rfloor> < length vals"
    by (simp only: nat_less_iff)
qed

lemma iqr_margin:
  fixes q1 q3 :: real
  assumes "q1 \<le> q3"
  shows "q1 - 1.5 * (q3 - q1) \<le> q1" and "q3 \<le> q3 + 1.5 * (q3 - q1)"
proof -
  from assms have "0 \<le> 1.5 * (q3 - q1)" by simp
  then show "q1 - 1.5 * (q3 - q1) \<le> q1" and "q3 \<le> q3 + 1.5 * (q3 - q1)" by linarith+
qed

lemma iqrBounds_quartiles:
  assumes "numericValues B data col \<noteq> []"
  defines "vals \<equiv> sort (numericValues B data col)"
  defines "q1 \<equiv> vals ! nat \<lfloor>real (length vals) * 0.25\<rfloor>"
  defines "q3 \<equiv> vals ! nat \<lfloor>real (length vals) * 0.75\<rfloor>"
  shows "iqrBounds B data col = (Some (q1 - 1.5 * (q3 - q1)), Some (q3 + 1.5 * (q3 - q1)))"
    and "q1 \<le> q3"
proof -
  from assms(1) have ne: "vals \<noteq> []"
    unfolding vals_def by (metis length_sort length_0_conv)
  show "iqrBounds B data col = (Some (q1 - 1.5 * (q3 - q1)), Some (q3 + 1.5 * (q3 - q1)))"
    using ne by (simp add: iqrBounds_def Let_def vals_def q1_def q3_def)
  have "sorted vals" by (simp add: vals_def)
  then show "q1 \<le> q3"
    unfolding q1_def q3_def using quartile_indices [OF ne] by (intro sorted_nth_mono)
qed

lemma iqrBounds_ordered: "orderedBounds (iqrBounds B data col)"
proof (cases "numericValues B data col = []")
  case True
  then show ?thesis by (simp add: iqrBounds_def orderedBounds_def)
next
  case False
  define q1 where "q1 = sort (numericValues B data col)
                          ! nat \<lfloor>real (length (sort (numericValues B data col))) * 0.25\<rfloor>"
  define q3 where "q3 = sort (numericValues B data col)
                          ! nat \<lfloor>real (length (sort (numericValues B data col))) * 0.75\<rfloor>"
  from iqrBounds_quartiles [OF False] have
    bs: "iqrBounds B data col = (Some (q1 - 1.5 * (q3 - q1)), Some (q3 + 1.5 * (q3 - q1)))"
    and q: "q1 \<le> q3"
    by (simp_all only: q1_def q3_def)
  from q iqr_margin [OF q] have "q1 - 1.5 * (q3 - q1) \<le> q3 + 1.5 * (q3 - q1)" by linarith
  then show ?thesis
    unfolding bs orderedBounds_def by simp
qed

lemma winsorizationBounds_ordered:
  assumes "lowerPercentile thr \<le> upperPercentile thr"
  shows "orderedBounds (winsorizationBounds B data col thr)"
proof -
  let ?vals = "sort (numericValues B data col)"
  let ?i = "\<lfloor>real (length ?vals) * lowerPercentile thr\<rfloor>"
  let ?j = "\<lfloor>real (length ?vals) * upperPercentile thr\<rfloor>"
  from assms have "real (length ?vals) * lowerPercentile thr \<le> real (length ?vals) * upperPercentile thr"
    by (intro mult_left_mono) simp_all
  then have ij: "?i \<le> ?j" by (rule floor_mono)
  have "?vals ! nat ?i \<le> ?vals ! nat ?j" if "0 \<le> ?i" "?j < int (length ?vals)"
  proof (rule sorted_nth_mono)
    show "sorted ?vals" by simp
    show "nat ?i \<le> nat ?j" using ij by (rule nat_mono)
    from that ij have "0 \<le> ?j" by linarith
    with that(2) show "nat ?j < length ?vals" by (simp only: nat_less_iff)
  qed
  then show ?thesis
    by (auto simp: orderedBounds_def winsorizationBounds_def valueAt_def Let_def)
qed

lemma columnBounds_ordered:
  assumes "outlierMethod config = Winsorization
             \<Longrightarrow> lowerPercentile (threshold config) \<le> upperPercentile (threshold config)"
  shows "orderedBounds (columnBounds B data config col)"
  using assms
proof (cases "outlierMethod config")
  case IQR
  then show ?thesis by (simp add: columnBounds_def iqrBounds_ordered)
next
  case Winsorization
  with assms show ?thesis by (simp add: columnBounds_def winsorizationBounds_ordered)
qed (simp_all add: columnBounds_def orderedBounds_def)

text \<open>Capping the values of a column to its bounds leaves the bounds as they are: the
  capped values sort as the values did, and the quartiles and the percentile values are
  themselves within the bounds.\<close>

lemma iqrBounds_stable:
  assumes "numericValues B data' col = map (capValue (iqrBounds B data col)) (numericValues B data col)"
  shows "iqrBounds B data' col = iqrBounds B data col"
proof (cases "numericValues B data col = []")
  case True
  with assms show ?thesis by (simp add: iqrBounds_def)
next
  case False
  define vals where "vals = sort (numericValues B data col)"
  define i1 where "i1 = nat \<lfloor>real (length vals) * 0.25\<rfloor>"
  define i3 where "i3 = nat \<lfloor>real (length vals) * 0.75\<rfloor>"
  define q1 where "q1 = vals ! i1"
  define q3 where "q3 = vals ! i3"
  let ?bs = "iqrBounds B data col"
  have bs: "?bs = (Some (q1 - 1.5 * (q3 - q1)), Some (q3 + 1.5 * (q3 - q1)))"
    unfolding q1_def q3_def i1_def i3_def vals_def by (rule iqrBounds_quartiles(1) [OF False])
  have q: "q1 \<le> q3"
    unfolding q1_def q3_def i1_def i3_def vals_def by (rule iqrBounds_quartiles(2) [OF False])
  from False have ne: "vals \<noteq> []"
    unfolding vals_def by (metis length_sort length_0_conv)
  have sorted': "sort (numericValues B data' col) = map (capValue ?bs) vals"
    unfolding assms vals_def
    by (rule sort_map_mono) (rule capValue_mono [OF iqrBounds_ordered])
  from q iqr_margin [OF q] have "\<not> q1 < q1 - 1.5 * (q3 - q1)" "\<not> q1 > q3 + 1.5 * (q3 - q1)"
    "\<not> q3 < q1 - 1.5 * (q3 - q1)" "\<not> q3 > q3 + 1.5 * (q3 - q1)"
    by linarith+
  then have fix1: "capValue ?bs q1 = q1" and fix3: "capValue ?bs q3 = q3"
    unfolding bs capValue_def by simp_all
  from quartile_indices [OF ne] have idx: "i1 < length vals" "i3 < length vals"
    by (simp_all only: i1_def i3_def)
  have len: "length (map (capValue ?bs) vals) = length vals" by simp
  have "map (capValue ?bs) vals ! i1 = capValue ?bs (vals ! i1)"
    using idx(1) by (rule nth_map)
  with fix1 have n1: "map (capValue ?bs) vals ! i1 = q1"
    by (simp only: q1_def)
  have "map (capValue ?bs) vals ! i3 = capValue ?bs (vals ! i3)"
    using idx(2) by (rule nth_map)
  with fix3 have n3: "map (capValue ?bs) vals ! i3 = q3"
    by (simp only: q3_def)
  from ne have ne': "map (capValue ?bs) vals \<noteq> []" by simp
  have "iqrBounds B data' col = (Some (q1 - 1.5 * (q3 - q1)), Some (q3 + 1.5 * (q3 - q1)))"
    unfolding iqrBounds_def [of B data'] sorted' Let_def len i1_def [symmetric] i3_def [symmetric] n1 n3
    using ne' by simp
  with bs show ?thesis by simp
qed

lemma valueAt_map: "valueAt (map f vals) i = map_option f (valueAt vals i)"
  by (simp add: valueAt_def nat_less_iff)

lemma winsorizationBounds_stable:
  assumes "numericValues B data' col
             = map (capValue (winsorizationBounds B data col thr)) (numericValues B data col)"
    and "lowerPercentile thr \<le> upperPercentile thr"
  shows "winsorizationBounds B data' col thr = winsorizationBounds B data col thr"
proof -
  let ?bs = "winsorizationBounds B data col thr"
  let ?vals = "sort (numericValues B data col)"
  have ordered: "orderedBounds ?bs"
    by (rule winsorizationBounds_ordered [OF assms(2)])
  have sorted': "sort (numericValues B data' col) = map (capValue ?bs) ?vals"
    unfolding assms(1) by (rule sort_map_mono) (rule capValue_mono [OF ordered])
  have fixl: "map_option (capValue ?bs) (fst ?bs) = fst ?bs"
    using ordered
    by (cases "fst ?bs"; cases "snd ?bs") (auto simp: capValue_def orderedBounds_def split: prod.splits)
  have fixu: "map_option (capValue ?bs) (snd ?bs) = snd ?bs"
    using ordered
    by (cases "fst ?bs"; cases "snd ?bs") (auto simp: capValue_def orderedBounds_def split: prod.splits)
  have "winsorizationBounds B data' col thr
          = (map_option (capValue ?bs) (fst ?bs), map_option (capValue ?bs) (snd ?bs))"
    by (simp add: winsorizationBounds_def [of B data'] sorted' valueAt_map Let_def)
       (simp add: winsorizationBounds_def Let_def)
  then show ?thesis by (simp add: fixl fixu)
qed

lemma columnBounds_stable:
  assumes "numericValues B data' col
             = map (capValue (columnBounds B data config col)) (numericValues B data col)"
    and "outlierMethod config = Winsorization
             \<Longrightarrow> lowerPercentile (threshold config) \<le> upperPercentile (threshold config)"
  shows "columnBounds B data' config col = columnBounds B data config col"
proof (cases "outlierMethod config")
  case IQR
  with assms(1) show ?thesis by (simp add: columnBounds_def iqrBounds_stable)
next
  case Winsorization
  with assms show ?thesis by (simp add: columnBounds_def winsorizationBounds_stable)
qed (simp_all add: columnBounds_def)
text \<open>The stage with the action \<^verbatim>\<open>cap\<close> returns, row by row, what the loop returns.\<close>

lemma dropNull_all_Some:
  assumes "\<And>x. x \<in> set xs \<Longrightarrow> \<exists>y. f x = Some y"
  shows "list_all2 (\<lambda>x y. f x = Some y) xs (dropNull (map f xs))"
  using assms
proof (induction xs)
  case Nil
  show ?case by (simp add: dropNull_def List.map_filter_simps)
next
  case (Cons x xs)
  from Cons.prems [of x] obtain y where "f x = Some y" by auto
  moreover from Cons have "list_all2 (\<lambda>x y. f x = Some y) xs (dropNull (map f xs))" by simp
  ultimately show ?case by (simp add: dropNull_def List.map_filter_simps)
qed

lemma handleOutliers_cap_rows:
  assumes "outlierAction config = CapAction" and "outlierMethod config \<noteq> ZScore"
  shows "list_all2 (\<lambda>row r. outlierLoop B data config row (outlierColumns config) row = Some r)
           data (handleOutliers B data config)"
  unfolding handleOutliers_def
  by (rule dropNull_all_Some) (use outlierLoop_cap [OF assms] in blast)

text \<open>After the stage, the cell of a listed column parses to the capped value of what the
  input cell parsed to.\<close>

lemma parse_capped_cell:
  assumes "outlierAction config = CapAction" and "outlierMethod config \<noteq> ZScore"
    and "outlierLoop B data config row cols row = Some r" and "c \<in> set cols"
  shows "parseFloat B (getCell r c)
           = map_option (capValue (columnBounds B data config c)) (parseFloat B (getCell row c))"
proof -
  from outlierLoop_cap [OF assms(1,2), of B data row cols row] assms(3)
  have cell: "getCell r c =
      (case parseFloat B (getCell row c) of
         None \<Rightarrow> getCell row c
       | Some v \<Rightarrow>
           if c \<in> set cols \<and> (belowBound v (fst (columnBounds B data config c))
                                \<or> aboveBound v (snd (columnBounds B data config c)))
           then Num (capValue (columnBounds B data config c) v)
           else getCell row c)"
    by auto
  show ?thesis
  proof (cases "parseFloat B (getCell row c)")
    case None
    with cell show ?thesis by simp
  next
    case (Some v)
    show ?thesis
    proof (cases "belowBound v (fst (columnBounds B data config c))
                  \<or> aboveBound v (snd (columnBounds B data config c))")
      case True
      with cell Some assms(4) show ?thesis by simp
    next
      case False
      with cell Some have "getCell r c = getCell row c" by simp
      moreover from False have "capValue (columnBounds B data config c) v = v"
        by (simp add: capValue_inside)
      ultimately show ?thesis using Some by simp
    qed
  qed
qed

lemma numericValues_related:
  assumes "list_all2 (\<lambda>row r. parseFloat B (getCell r c) = map_option f (parseFloat B (getCell row c)))
             rows rows'"
  shows "numericValues B rows' c = map f (numericValues B rows c)"
  using assms
  by (induction rule: list_all2_induct)
     (auto simp: numericValues_def List.map_filter_simps split: option.splits)

lemma numericValues_capped:
  assumes "outlierAction config = CapAction" and "outlierMethod config \<noteq> ZScore"
    and "c \<in> set (outlierColumns config)"
  shows "numericValues B (handleOutliers B data config) c
           = map (capValue (columnBounds B data config c)) (numericValues B data c)"
proof (rule numericValues_related)
  show "list_all2 (\<lambda>row r. parseFloat B (getCell r c)
           = map_option (capValue (columnBounds B data config c)) (parseFloat B (getCell row c)))
          data (handleOutliers B data config)"
    by (rule list_all2_mono [OF handleOutliers_cap_rows [OF assms(1,2)]])
       (rule parse_capped_cell [OF assms(1,2) _ assms(3)])
qed

text \<open>
  C8, as the code has it.  Capping is idempotent under every method that tests a value
  against bounds read off the sorted column: \<^verbatim>\<open>iqr\<close>, and \<^verbatim>\<open>winsorization\<close> when the lower
  percentile is at most the upper one (the object \<^verbatim>\<open>{lower, upper}\<close>, or the defaults
  \<open>0.01\<close> and \<open>0.99\<close>).  For such a configuration with the action \<^verbatim>\<open>cap\<close>, whatever the
  threshold and the selected columns, \<^verbatim>\<open>handleOutliers\<close> applied to its own output returns
  that output.
\<close>

theorem cap_idempotent_for_rank_bounds:
  assumes "outlierAction config = CapAction"
    and "outlierMethod config = IQR
         \<or> (outlierMethod config = Winsorization
            \<and> lowerPercentile (threshold config) \<le> upperPercentile (threshold config))"
  shows "handleOutliers B (handleOutliers B data config) config = handleOutliers B data config"
proof -
  let ?out = "handleOutliers B data config"
  let ?cols = "outlierColumns config"
  from assms(2) have notZ: "outlierMethod config \<noteq> ZScore" by auto
  from assms(2) have ordered: "outlierMethod config = Winsorization
      \<Longrightarrow> lowerPercentile (threshold config) \<le> upperPercentile (threshold config)"
    by auto
  have bounds: "columnBounds B ?out config c = columnBounds B data config c" if "c \<in> set ?cols" for c
    by (rule columnBounds_stable [OF numericValues_capped [OF assms(1) notZ that] ordered])
  have unchanged: "outlierLoop B ?out config r ?cols r = Some r" if r: "r \<in> set ?out" for r
  proof (rule outlierLoop_no_outlier)
    fix c w
    assume c: "c \<in> set ?cols" and w: "parseFloat B (getCell r c) = Some w"
    from r obtain i where i: "i < length ?out" "?out ! i = r"
      by (auto simp: in_set_conv_nth)
    from handleOutliers_cap_rows [OF assms(1) notZ, of B data] i
    have loop: "outlierLoop B data config (data ! i) ?cols (data ! i) = Some r"
      by (auto dest: list_all2_nthD2)
    from parse_capped_cell [OF assms(1) notZ loop c] w obtain v where
      "w = capValue (columnBounds B data config c) v"
      by (cases "parseFloat B (getCell (data ! i) c)") auto
    with capValue_within_bounds [OF columnBounds_ordered [OF ordered], of B data c v]
    have "\<not> belowBound w (fst (columnBounds B data config c))
          \<and> \<not> aboveBound w (snd (columnBounds B data config c))"
      by simp
    then show "\<not> isOutlier (detect B ?out config c w)"
      by (simp add: detect_by_bounds [OF notZ] bounds [OF c])
  qed
  have "map (\<lambda>r. outlierLoop B ?out config r ?cols r) ?out = map Some ?out"
    by (rule map_cong [OF refl]) (rule unchanged)
  then show ?thesis
    by (simp only: handleOutliers_def [of B ?out] dropNull_map_Some)
qed

text \<open>The example of the specification, \<open>1, 2, 3, 4, 100\<close>: under \<^verbatim>\<open>iqr\<close> the value 100
  is capped to the upper bound 7, under \<^verbatim>\<open>winsorization\<close> with the percentiles \<open>0.2\<close> and
  \<open>0.8\<close> the value 1 is capped to the lower bound 2; capping either result again changes
  nothing.\<close>

theorem cap_idempotent_example:
  "outlierAction \<lparr>outlierMethod = IQR, threshold = ThresholdNumber 1.5, outlierAction = CapAction,
                   outlierColumns = [''x'']\<rparr> = CapAction
   \<and> outlierMethod \<lparr>outlierMethod = IQR, threshold = ThresholdNumber 1.5, outlierAction = CapAction,
                   outlierColumns = [''x'']\<rparr> = IQR
   \<and> handleOutliers intBuiltins
        [[(''x'', Num 1)], [(''x'', Num 2)], [(''x'', Num 3)], [(''x'', Num 4)], [(''x'', Num 100)]]
        \<lparr>outlierMethod = IQR, threshold = ThresholdNumber 1.5, outlierAction = CapAction,
         outlierColumns = [''x'']\<rparr>
      = [[(''x'', Num 1)], [(''x'', Num 2)], [(''x'', Num 3)], [(''x'', Num 4)], [(''x'', Num 7)]]
   \<and> handleOutliers intBuiltins
        [[(''x'', Num 1)], [(''x'', Num 2)], [(''x'', Num 3)], [(''x'', Num 4)], [(''x'', Num 7)]]
        \<lparr>outlierMethod = IQR, threshold = ThresholdNumber 1.5, outlierAction = CapAction,
         outlierColumns = [''x'']\<rparr>
      = [[(''x'', Num 1)], [(''x'', Num 2)], [(''x'', Num 3)], [(''x'', Num 4)], [(''x'', Num 7)]]
   \<and> lowerPercentile (ThresholdObject 0.2 0.8) \<le> upperPercentile (ThresholdObject 0.2 0.8)
   \<and> handleOutliers intBuiltins
        [[(''x'', Num 1)], [(''x'', Num 2)], [(''x'', Num 3)], [(''x'', Num 4)], [(''x'', Num 100)]]
        \<lparr>outlierMethod = Winsorization, threshold = ThresholdObject 0.2 0.8,
         outlierAction = CapAction, outlierColumns = [''x'']\<rparr>
      = [[(''x'', Num 2)], [(''x'', Num 2)], [(''x'', Num 3)], [(''x'', Num 4)], [(''x'', Num 100)]]
   \<and> handleOutliers intBuiltins
        [[(''x'', Num 2)], [(''x'', Num 2)], [(''x'', Num 3)], [(''x'', Num 4)], [(''x'', Num 100)]]
        \<lparr>outlierMethod = Winsorization, threshold = ThresholdObject 0.2 0.8,
         outlierAction = CapAction, outlierColumns = [''x'']\<rparr>
      = [[(''x'', Num 2)], [(''x'', Num 2)], [(''x'', Num 3)], [(''x'', Num 4)], [(''x'', Num 100)]]"
proof -
  let ?config = "\<lparr>outlierMethod = IQR, threshold = ThresholdNumber 1.5, outlierAction = CapAction,
                   outlierColumns = [''x'']\<rparr>"
  let ?winsor = "\<lparr>outlierMethod = Winsorization, threshold = ThresholdObject 0.2 0.8,
                   outlierAction = CapAction, outlierColumns = [''x'']\<rparr>"
  let ?data = "[[(''x'', Num 1)], [(''x'', Num 2)], [(''x'', Num 3)], [(''x'', Num 4)], [(''x'', Num 100)]]"
  have a: "outlierAction ?config = CapAction" by simp
  have m: "outlierMethod ?config = IQR
         \<or> (outlierMethod ?config = Winsorization
            \<and> lowerPercentile (threshold ?config) \<le> upperPercentile (threshold ?config))"
    by simp
  have first: "handleOutliers intBuiltins ?data ?config
      = [[(''x'', Num 1)], [(''x'', Num 2)], [(''x'', Num 3)], [(''x'', Num 4)], [(''x'', Num 7)]]"
    by (simp add: outlier_defs row_defs Let_def)
  from cap_idempotent_for_rank_bounds [OF a m, of intBuiltins ?data]
  have second: "handleOutliers intBuiltins
          [[(''x'', Num 1)], [(''x'', Num 2)], [(''x'', Num 3)], [(''x'', Num 4)], [(''x'', Num 7)]] ?config
      = [[(''x'', Num 1)], [(''x'', Num 2)], [(''x'', Num 3)], [(''x'', Num 4)], [(''x'', Num 7)]]"
    by (simp only: first)
  have a': "outlierAction ?winsor = CapAction" by simp
  have p: "lowerPercentile (ThresholdObject 0.2 0.8) \<le> upperPercentile (ThresholdObject 0.2 0.8)"
    by (simp add: lowerPercentile_def upperPercentile_def)
  then have m': "outlierMethod ?winsor = IQR
         \<or> (outlierMethod ?winsor = Winsorization
            \<and> lowerPercentile (threshold ?winsor) \<le> upperPercentile (threshold ?winsor))"
    by simp
  have first': "handleOutliers intBuiltins ?data ?winsor
      = [[(''x'', Num 2)], [(''x'', Num 2)], [(''x'', Num 3)], [(''x'', Num 4)], [(''x'', Num 100)]]"
    by (simp add: outlier_defs row_defs Let_def)
  from cap_idempotent_for_rank_bounds [OF a' m', of intBuiltins ?data]
  have second': "handleOutliers intBuiltins
          [[(''x'', Num 2)], [(''x'', Num 2)], [(''x'', Num 3)], [(''x'', Num 4)], [(''x'', Num 100)]] ?winsor
      = [[(''x'', Num 2)], [(''x'', Num 2)], [(''x'', Num 3)], [(''x'', Num 4)], [(''x'', Num 100)]]"
    by (simp only: first')
  from a first second p first' second' show ?thesis by simp
qed

text \<open>
  C8, as stated, fails.  Under \<^verbatim>\<open>z-score\<close> the mean and the standard deviation are taken
  anew from the capped data: on sixteen rows \<open>x = 0\<close> and one row \<open>x = 17\<close> with the
  threshold 3 the mean is 1 and the deviation 4, so 17 is capped to 13; on the result the
  mean is \<open>13/17\<close> and the deviation \<open>52/17\<close>, and 13 is capped again, to \<open>169/17\<close>.  Under
  \<^verbatim>\<open>winsorization\<close> with the lower percentile above the upper one (\<open>0.5\<close> and \<open>0\<close> on
  the column \<open>1, 2\<close>) each pass swaps the two values.
\<close>

lemma sqrt_square: "0 \<le> x \<Longrightarrow> sqrt (x * x) = x"
  by simp

lemma sqrt_16: "sqrt 16 = 4"
  using sqrt_square [of 4] by simp

lemmas zscore_defs = handleOutliers_def detect_def zScoreDetection_def capCell_def
  belowBound_def aboveBound_def

theorem cap_not_idempotent:
  "handleOutliers intBuiltins
     (handleOutliers intBuiltins
        [[(''x'', Num 0)], [(''x'', Num 0)], [(''x'', Num 0)], [(''x'', Num 0)],
         [(''x'', Num 0)], [(''x'', Num 0)], [(''x'', Num 0)], [(''x'', Num 0)],
         [(''x'', Num 0)], [(''x'', Num 0)], [(''x'', Num 0)], [(''x'', Num 0)],
         [(''x'', Num 0)], [(''x'', Num 0)], [(''x'', Num 0)], [(''x'', Num 0)],
         [(''x'', Num 17)]]
        \<lparr>outlierMethod = ZScore, threshold = ThresholdNumber 3, outlierAction = CapAction,
         outlierColumns = [''x'']\<rparr>)
     \<lparr>outlierMethod = ZScore, threshold = ThresholdNumber 3, outlierAction = CapAction,
      outlierColumns = [''x'']\<rparr>
   \<noteq> handleOutliers intBuiltins
        [[(''x'', Num 0)], [(''x'', Num 0)], [(''x'', Num 0)], [(''x'', Num 0)],
         [(''x'', Num 0)], [(''x'', Num 0)], [(''x'', Num 0)], [(''x'', Num 0)],
         [(''x'', Num 0)], [(''x'', Num 0)], [(''x'', Num 0)], [(''x'', Num 0)],
         [(''x'', Num 0)], [(''x'', Num 0)], [(''x'', Num 0)], [(''x'', Num 0)],
         [(''x'', Num 17)]]
        \<lparr>outlierMethod = ZScore, threshold = ThresholdNumber 3, outlierAction = CapAction,
         outlierColumns = [''x'']\<rparr>
   \<and> handleOutliers intBuiltins
     (handleOutliers intBuiltins [[(''x'', Num 1)], [(''x'', Num 2)]]
        \<lparr>outlierMethod = Winsorization, threshold = ThresholdObject 0.5 0,
         outlierAction = CapAction, outlierColumns = [''x'']\<rparr>)
     \<lparr>outlierMethod = Winsorization, threshold = ThresholdObject 0.5 0,
      outlierAction = CapAction, outlierColumns = [''x'']\<rparr>
   \<noteq> handleOutliers intBuiltins [[(''x'', Num 1)], [(''x'', Num 2)]]
        \<lparr>outlierMethod = Winsorization, threshold = ThresholdObject 0.5 0,
         outlierAction = CapAction, outlierColumns = [''x'']\<rparr>"
proof -
  let ?z = "\<lparr>outlierMethod = ZScore, threshold = ThresholdNumber 3, outlierAction = CapAction,
             outlierColumns = [''x'']\<rparr>"
  let ?d0 = "[[(''x'', Num 0)], [(''x'', Num 0)], [(''x'', Num 0)], [(''x'', Num 0)],
         [(''x'', Num 0)], [(''x'', Num 0)], [(''x'', Num 0)], [(''x'', Num 0)],
         [(''x'', Num 0)], [(''x'', Num 0)], [(''x'', Num 0)], [(''x'', Num 0)],
         [(''x'', Num 0)], [(''x'', Num 0)], [(''x'', Num 0)], [(''x'', Num 0)],
         [(''x'', Num 17)]]"
  let ?d1 = "[[(''x'', Num 0)], [(''x'', Num 0)], [(''x'', Num 0)], [(''x'', Num 0)],
         [(''x'', Num 0)], [(''x'', Num 0)], [(''x'', Num 0)], [(''x'', Num 0)],
         [(''x'', Num 0)], [(''x'', Num 0)], [(''x'', Num 0)], [(''x'', Num 0)],
         [(''x'', Num 0)], [(''x'', Num 0)], [(''x'', Num 0)], [(''x'', Num 0)],
         [(''x'', Num 13)]]"
  let ?d2 = "[[(''x'', Num 0)], [(''x'', Num 0)], [(''x'', Num 0)], [(''x'', Num 0)],
         [(''x'', Num 0)], [(''x'', Num 0)], [(''x'', Num 0)], [(''x'', Num 0)],
         [(''x'', Num 0)], [(''x'', Num 0)], [(''x'', Num 0)], [(''x'', Num 0)],
         [(''x'', Num 0)], [(''x'', Num 0)], [(''x'', Num 0)], [(''x'', Num 0)],
         [(''x'', Num (169 / 17))]]"
  let ?w = "\<lparr>outlierMethod = Winsorization, threshold = ThresholdObject 0.5 0,
             outlierAction = CapAction, outlierColumns = [''x'']\<rparr>"
  have mean1: "calculateColumnMean intBuiltins ?d0 ''x'' = Some 1"
    by (simp add: calculateColumnMean_def numericValues_def row_defs)
  have "calculateColumnStd intBuiltins ?d0 ''x'' = Some (sqrt 16)"
    by (simp add: calculateColumnStd_def numericValues_def row_defs)
  then have std1: "calculateColumnStd intBuiltins ?d0 ''x'' = Some 4"
    by (simp only: sqrt_16)
  have z1: "handleOutliers intBuiltins ?d0 ?z = ?d1"
    by (simp add: zscore_defs mean1 std1 row_defs)
  have mean2: "calculateColumnMean intBuiltins ?d1 ''x'' = Some (13 / 17)"
    by (simp add: calculateColumnMean_def numericValues_def row_defs)
  have "calculateColumnStd intBuiltins ?d1 ''x'' = Some (sqrt ((52 / 17) * (52 / 17)))"
    by (simp add: calculateColumnStd_def numericValues_def row_defs power2_eq_square)
  then have std2: "calculateColumnStd intBuiltins ?d1 ''x'' = Some (52 / 17)"
    by (simp only: sqrt_square [of "52 / 17"])
  have z2: "handleOutliers intBuiltins ?d1 ?z = ?d2"
    by (simp add: zscore_defs mean2 std2 row_defs)
  have w1: "handleOutliers intBuiltins [[(''x'', Num 1)], [(''x'', Num 2)]] ?w
              = [[(''x'', Num 2)], [(''x'', Num 1)]]"
    by (simp add: outlier_defs row_defs Let_def)
  have w2: "handleOutliers intBuiltins [[(''x'', Num 2)], [(''x'', Num 1)]] ?w
              = [[(''x'', Num 1)], [(''x'', Num 2)]]"
    by (simp add: outlier_defs row_defs Let_def)
  from z1 z2 w1 w2 show ?thesis by simp
qed

section \<open>The engine leaves the objects it is given as they are\<close>

lemma extends_refl: "extends s s"
  by (simp add: extends_def)

lemma extends_length:
  assumes "extends s s'"
  shows "length s \<le> length s'"
proof -
  from assms have "length (take (length s) s') = length s" by (simp only: extends_def)
  then show ?thesis by simp
qed

lemma extends_trans:
  assumes "extends s s1" and "extends s1 s2"
  shows "extends s s2"
proof -
  from assms(1) have "length s \<le> length s1" by (rule extends_length)
  then have "take (length s) s2 = take (length s) (take (length s1) s2)"
    by (simp add: min_def)
  with assms show ?thesis by (simp add: extends_def)
qed

text \<open>An object of the earlier store is read the same in a store that extends it.\<close>

lemma extends_nth:
  assumes "extends s s'" and "a < length s"
  shows "s' ! a = s ! a"
proof -
  from assms(1) have "s ! a = take (length s) s' ! a" by (simp add: extends_def)
  with assms(2) show ?thesis by simp
qed

lemma extends_rowAt:
  assumes "extends s s'" and "a < length s"
  shows "rowAt s' a = rowAt s a"
  using extends_nth [OF assms] extends_length [OF assms(1)] assms(2) by (simp add: rowAt_def)

lemma extends_elementsAt:
  assumes "extends s s'" and "a < length s"
  shows "elementsAt s' a = elementsAt s a"
  using extends_nth [OF assms] extends_length [OF assms(1)] assms(2) by (simp add: elementsAt_def)

lemma allocate_extends:
  assumes "allocate obj s = (a, s')"
  shows "extends s s'" and "a = length s" and "length s' = Suc (length s)"
  using assms by (auto simp: allocate_def extends_def)

text \<open>A write to an address that the earlier store does not have keeps the extension.\<close>

lemma assign_extends:
  assumes "extends s0 s" and "length s0 \<le> a"
  shows "extends s0 (assign a col v s)"
  using assms by (simp add: extends_def assign_def)

lemma length_assign: "length (assign a col v s) = length s"
  by (simp add: assign_def)

lemma capCellS_extends:
  assumes "extends s0 s" and "length s0 \<le> a"
  shows "extends s0 (capCellS a col v det s)"
  using assms by (simp add: capCellS_def Let_def assign_extends)

lemma length_capCellS: "length (capCellS a col v det s) = length s"
  by (simp add: capCellS_def Let_def length_assign)

text \<open>The loops write to the copy only.\<close>

lemma imputeColumnsS_snd:
  assumes "extends s0 s" and "length s0 \<le> newRow"
  shows "extends s0 (snd (imputeColumnsS B data row m newRow cols s))
         \<and> length (snd (imputeColumnsS B data row m newRow cols s)) = length s"
  using assms(1)
proof (induction cols arbitrary: s)
  case Nil
  then show ?case by simp
next
  case (Cons col cols)
  have written: "extends s0 (assign newRow col v s)" for v
    by (rule assign_extends [OF Cons.prems assms(2)])
  have after_write:
    "\<forall>v. extends s0 (snd (imputeColumnsS B data row m newRow cols (assign newRow col v s)))
         \<and> length (snd (imputeColumnsS B data row m newRow cols (assign newRow col v s))) = length s"
    using Cons.IH [OF written] by (simp add: length_assign)
  show ?case
    using Cons.IH [OF Cons.prems] after_write Cons.prems
    by (cases m) (simp_all split: sum.splits)
qed

lemma imputeColumnsS_extends:
  assumes "extends s0 s" and "length s0 \<le> newRow"
    and "imputeColumnsS B data row m newRow cols s = (res, s')"
  shows "extends s0 s' \<and> length s' = length s"
  using imputeColumnsS_snd [OF assms(1,2), of B data row m cols] assms(3) by simp

lemma outlierLoopS_snd:
  assumes "extends s0 s" and "length s0 \<le> newRow"
  shows "extends s0 (snd (outlierLoopS B data config row newRow cols s))
         \<and> length (snd (outlierLoopS B data config row newRow cols s)) = length s"
  using assms(1)
proof (induction cols arbitrary: s)
  case Nil
  then show ?case by simp
next
  case (Cons col cols)
  have written: "extends s0 (assign newRow col v s)" for v
    by (rule assign_extends [OF Cons.prems assms(2)])
  have capped: "extends s0 (capCellS newRow col v det s)" for v det
    by (rule capCellS_extends [OF Cons.prems assms(2)])
  have after_write:
    "\<forall>v. extends s0 (snd (outlierLoopS B data config row newRow cols (assign newRow col v s)))
         \<and> length (snd (outlierLoopS B data config row newRow cols (assign newRow col v s))) = length s"
    using Cons.IH [OF written] by (simp add: length_assign)
  have after_cap:
    "\<forall>v det. extends s0 (snd (outlierLoopS B data config row newRow cols (capCellS newRow col v det s)))
         \<and> length (snd (outlierLoopS B data config row newRow cols (capCellS newRow col v det s)))
             = length s"
    using Cons.IH [OF capped] by (simp add: length_capCellS)
  show ?case
    using Cons.IH [OF Cons.prems] after_write after_cap Cons.prems
    by (cases "outlierAction config") (simp_all add: Let_def split: option.splits)
qed

lemma outlierLoopS_extends:
  assumes "extends s0 s" and "length s0 \<le> newRow"
    and "outlierLoopS B data config row newRow cols s = (res, s')"
  shows "extends s0 s' \<and> length s' = length s"
  using outlierLoopS_snd [OF assms(1,2), of B data config row cols] assms(3) by simp

lemma imputeRowS_extends:
  assumes "extends s0 s" and "imputeRowS B data config row s = (res, s')"
  shows "extends s0 s' \<and> length s \<le> length s'"
proof -
  obtain newRow s1 where alloc: "allocate (RowObject (rowAt s row)) s = (newRow, s1)"
    by (cases "allocate (RowObject (rowAt s row)) s")
  obtain r s2 where loop:
    "imputeColumnsS B data row (imputationMethod config) newRow (imputationColumns config) s1 = (r, s2)"
    by (cases "imputeColumnsS B data row (imputationMethod config) newRow (imputationColumns config) s1")
  from allocate_extends [OF alloc] assms(1) have
    "extends s0 s1" "length s0 \<le> newRow" "length s1 = Suc (length s)"
    by (auto intro: extends_trans dest: extends_length)
  from imputeColumnsS_extends [OF this(1,2) loop] this(3)
  have "extends s0 s2 \<and> length s \<le> length s2" by simp
  moreover from assms(2) alloc loop have "s' = s2"
    by (auto simp: imputeRowS_def split: sum.splits)
  ultimately show ?thesis by simp
qed

lemma outlierRowS_extends:
  assumes "extends s0 s" and "outlierRowS B data config row s = (res, s')"
  shows "extends s0 s' \<and> length s \<le> length s'"
proof -
  obtain newRow s1 where alloc: "allocate (RowObject (rowAt s row)) s = (newRow, s1)"
    by (cases "allocate (RowObject (rowAt s row)) s")
  from allocate_extends [OF alloc] assms(1) have
    "extends s0 s1" "length s0 \<le> newRow" "length s1 = Suc (length s)"
    by (auto intro: extends_trans dest: extends_length)
  moreover from assms(2) alloc have
    "outlierLoopS B data config row newRow (outlierColumns config) s1 = (res, s')"
    by (simp add: outlierRowS_def)
  ultimately show ?thesis
    using outlierLoopS_extends [of s0 s1 newRow B data config row "outlierColumns config" res s']
    by simp
qed

lemma mapS_extends:
  assumes "\<And>a s res s'. extends s0 s \<Longrightarrow> f a s = (res, s') \<Longrightarrow> extends s0 s' \<and> length s \<le> length s'"
    and "extends s0 s" and "mapS f as s = (res, s')"
  shows "extends s0 s' \<and> length s \<le> length s'"
  using assms(2,3)
proof (induction as arbitrary: s res s')
  case Nil
  then show ?case by simp
next
  case (Cons a as)
  obtain y s1 where first: "f a s = (y, s1)" by (cases "f a s")
  obtain ys s2 where rest: "mapS f as s1 = (ys, s2)" by (cases "mapS f as s1")
  from assms(1) [OF Cons.prems(1) first] have s1: "extends s0 s1" "length s \<le> length s1" by simp_all
  from Cons.IH [OF s1(1) rest] have "extends s0 s2" "length s1 \<le> length s2" by simp_all
  moreover from Cons.prems(2) first rest have "s' = s2" by simp
  ultimately show ?case using s1(2) by simp
qed

lemma mapES_extends:
  assumes "\<And>a s res s'. extends s0 s \<Longrightarrow> f a s = (res, s') \<Longrightarrow> extends s0 s' \<and> length s \<le> length s'"
    and "extends s0 s" and "mapES f as s = (res, s')"
  shows "extends s0 s' \<and> length s \<le> length s'"
  using assms(2,3)
proof (induction as arbitrary: s res s')
  case Nil
  then show ?case by simp
next
  case (Cons a as)
  obtain y s1 where first: "f a s = (y, s1)" by (cases "f a s")
  from assms(1) [OF Cons.prems(1) first] have s1: "extends s0 s1" "length s \<le> length s1" by simp_all
  show ?case
  proof (cases y)
    case (Inl e)
    with Cons.prems(2) first have "s' = s1" by simp
    with s1 show ?thesis by simp
  next
    case (Inr v)
    obtain ys s2 where rest: "mapES f as s1 = (ys, s2)" by (cases "mapES f as s1")
    from Cons.IH [OF s1(1) rest] have "extends s0 s2" "length s1 \<le> length s2" by simp_all
    moreover from Cons.prems(2) first rest Inr have "s' = s2" by (auto split: sum.splits)
    ultimately show ?thesis using s1(2) by simp
  qed
qed

lemma filterNotNullS_framed:
  assumes "extends s0 s" and "filterNotNullS mapped s = (a, s')"
  shows "extends s0 s' \<and> length s \<le> a \<and> a < length s'"
proof -
  obtain m s1 where first: "allocate (ArrayObject mapped) s = (m, s1)"
    by (cases "allocate (ArrayObject mapped) s")
  from assms(2) first have second:
    "allocate (ArrayObject (filter (\<lambda>e. e \<noteq> None) mapped)) s1 = (a, s')"
    by (simp add: filterNotNullS_def)
  from allocate_extends [OF first] allocate_extends [OF second] assms(1) show ?thesis
    by (auto intro: extends_trans)
qed

lemma framedI:
  assumes "extends s s'" and "\<And>a. res = Inr a \<Longrightarrow> length s \<le> a \<and> a < length s'"
  shows "framed s (res, s')"
  using assms by (simp add: framed_def split: sum.splits)

lemma framed_after:
  assumes "extends s0 s" and "framed s outcome"
  shows "framed s0 outcome"
  using assms extends_length [OF assms(1)]
  by (auto simp: framed_def intro: extends_trans split: sum.splits)

lemma handleMissingValuesS_framed: "framed s (handleMissingValuesS B data config s)"
proof -
  obtain r s1 where run: "mapES (imputeRowS B data config) (rowRefs s data) s = (r, s1)"
    by (cases "mapES (imputeRowS B data config) (rowRefs s data) s")
  from mapES_extends [of s "imputeRowS B data config", OF _ extends_refl run] imputeRowS_extends
  have s1: "extends s s1" "length s \<le> length s1" by blast+
  show ?thesis
  proof (cases r)
    case (Inl e)
    with run s1 show ?thesis by (simp add: handleMissingValuesS_def framed_def)
  next
    case (Inr mapped)
    obtain a s2 where filtered: "filterNotNullS mapped s1 = (a, s2)"
      by (cases "filterNotNullS mapped s1")
    from filterNotNullS_framed [OF s1(1) filtered] s1(2) run Inr filtered show ?thesis
      by (simp add: handleMissingValuesS_def framed_def)
  qed
qed

lemma handleOutliersS_framed:
  "framed s (case handleOutliersS B data config s of (a, s') \<Rightarrow> (Inr a, s'))"
proof -
  obtain mapped s1 where run: "mapS (outlierRowS B data config) (rowRefs s data) s = (mapped, s1)"
    by (cases "mapS (outlierRowS B data config) (rowRefs s data) s")
  from mapS_extends [of s "outlierRowS B data config", OF _ extends_refl run] outlierRowS_extends
  have s1: "extends s s1" "length s \<le> length s1" by blast+
  obtain a s2 where filtered: "filterNotNullS mapped s1 = (a, s2)"
    by (cases "filterNotNullS mapped s1")
  from filterNotNullS_framed [OF s1(1) filtered] s1(2) run filtered show ?thesis
    by (simp add: handleOutliersS_def framed_def)
qed

lemma applyRulesS_framed: "framed s (applyRulesS B data rs s)"
  by (auto simp: applyRulesS_def framed_def extends_refl allocate_def extends_def
           split: sum.splits)

text \<open>The pipeline: the copy \<^verbatim>\<open>[...data]\<close> is a new array, and each stage that runs keeps
  what is there.\<close>

lemma cleanDataS_framed: "framed s (cleanDataS B data config s)"
proof -
  obtain copied s0 where copy: "allocate (ArrayObject (elementsAt s data)) s = (copied, s0)"
    by (cases "allocate (ArrayObject (elementsAt s data)) s")
  from allocate_extends [OF copy] have s0: "extends s s0" "copied = length s" "length s0 = Suc (length s)"
    by simp_all
  define stage1 where "stage1 = (case imputation config of
                   None \<Rightarrow> (Inr copied, s0)
                 | Some c \<Rightarrow> handleMissingValuesS B copied c s0)"
  have f1: "framed s stage1"
  proof (cases "imputation config")
    case None
    with s0 show ?thesis by (simp add: stage1_def framed_def)
  next
    case (Some c)
    from framed_after [OF s0(1) handleMissingValuesS_framed [of s0 B copied c]] Some
    show ?thesis by (simp add: stage1_def)
  qed
  show ?thesis
  proof (cases stage1)
    case (Pair r1 s1)
    show ?thesis
    proof (cases r1)
      case (Inl e)
      with f1 Pair copy show ?thesis
        by (simp add: cleanDataS_def stage1_def [symmetric])
    next
      case (Inr imputed)
      from f1 Pair Inr have s1: "extends s s1" "length s \<le> imputed" "imputed < length s1"
        by (simp_all add: framed_def)
      define stage2 where "stage2 = (case outliers config of
                        None \<Rightarrow> (imputed, s1)
                      | Some c \<Rightarrow> handleOutliersS B imputed c s1)"
      obtain treated s2 where st2: "stage2 = (treated, s2)" by (cases stage2)
      have f2: "framed s (Inr treated, s2)"
      proof (cases "outliers config")
        case None
        with st2 s1 show ?thesis by (simp add: stage2_def framed_def)
      next
        case (Some c)
        from framed_after [OF s1(1) handleOutliersS_framed [of s1 B imputed c]] Some st2
        show ?thesis by (simp add: stage2_def)
      qed
      then have s2: "extends s s2" by (simp add: framed_def)
      have "framed s (case rules config of
                       None \<Rightarrow> (Inr treated, s2)
                     | Some rs \<Rightarrow>
                         if length rs > 0 then applyRulesS B treated rs s2 else (Inr treated, s2))"
        using f2 framed_after [OF s2 applyRulesS_framed]
        by (simp split: option.splits)
      with Pair Inr st2 copy show ?thesis
        by (simp add: cleanDataS_def stage1_def [symmetric] stage2_def [symmetric])
    qed
  qed
qed

text \<open>What the property says of the objects read through the store: an address of the
  earlier store leads to the same row, and to the same array of the same rows.\<close>

lemma framed_reads:
  assumes "framed s (res, s')" and "a < length s"
  shows "s' ! a = s ! a" and "rowAt s' a = rowAt s a" and "elementsAt s' a = elementsAt s a"
  using assms by (simp_all add: framed_def extends_nth extends_rowAt extends_elementsAt)


section \<open>The engine on a store computes what the engine on values computes\<close>

lemma rowAt_assign:
  "rowAt (assign a col v s) b
     = (if b = a \<and> a < length s then setCell col v (rowAt s a) else rowAt s b)"
  by (simp add: rowAt_def assign_def)

lemma rowRefs_assign: "b \<noteq> a \<Longrightarrow> rowRefs (assign a col v s) b = rowRefs s b"
  by (simp add: rowRefs_def elementsAt_def assign_def)

lemma rowsOf_assign:
  assumes "data \<noteq> a" and "a \<notin> set (rowRefs s data)"
  shows "rowsOf (assign a col v s) data = rowsOf s data"
  using assms by (auto simp: rowsOf_def rowRefs_assign rowAt_assign)

lemma rowAt_capCellS:
  "rowAt (capCellS a col v det s) b
     = (if b = a \<and> a < length s then capCell col v det (rowAt s a) else rowAt s b)"
  by (simp add: capCellS_def capCell_def Let_def rowAt_assign length_assign)

lemma rowRefs_capCellS: "b \<noteq> a \<Longrightarrow> rowRefs (capCellS a col v det s) b = rowRefs s b"
  by (simp add: capCellS_def Let_def rowRefs_assign)

lemma rowsOf_capCellS:
  assumes "data \<noteq> a" and "a \<notin> set (rowRefs s data)"
  shows "rowsOf (capCellS a col v det s) data = rowsOf s data"
  using assms by (auto simp: rowsOf_def rowRefs_capCellS rowAt_capCellS)

lemma extends_rowRefs:
  assumes "extends s s'" and "wellFormed s data"
  shows "rowRefs s' data = rowRefs s data" and "rowsOf s' data = rowsOf s data"
proof -
  from assms have refs: "rowRefs s' data = rowRefs s data"
    by (simp add: rowRefs_def wellFormed_def extends_elementsAt)
  from assms(2) have "\<forall>a \<in> set (rowRefs s data). a < length s"
    by (simp add: wellFormed_def list_all_iff)
  with assms(1) have "map (rowAt s') (rowRefs s data) = map (rowAt s) (rowRefs s data)"
    by (simp add: extends_rowAt)
  with refs show "rowRefs s' data = rowRefs s data" and "rowsOf s' data = rowsOf s data"
    by (simp_all add: rowsOf_def)
qed

text \<open>The loop over the columns of the imputation stage, on the store and on values.\<close>

lemma imputeColumnsS_refines:
  assumes "newRow < length s" and "newRow \<noteq> data" and "newRow \<notin> set (rowRefs s data)"
    and "newRow \<noteq> row"
  shows "(case foldE (imputeColumn B (rowsOf s data) (rowAt s row) m) cols (rowAt s newRow) of
            Inl e \<Rightarrow> fst (imputeColumnsS B data row m newRow cols s) = Inl e
          | Inr r \<Rightarrow> fst (imputeColumnsS B data row m newRow cols s) = Inr ()
                     \<and> rowAt (snd (imputeColumnsS B data row m newRow cols s)) newRow = r)"
  using assms(1,3)
proof (induction cols arbitrary: s)
  case Nil
  show ?case by simp
next
  case (Cons col cols)
  have written:
    "case foldE (imputeColumn B (rowsOf s data) (rowAt s row) m) cols (setCell col v (rowAt s newRow)) of
       Inl e \<Rightarrow> fst (imputeColumnsS B data row m newRow cols (assign newRow col v s)) = Inl e
     | Inr r \<Rightarrow> fst (imputeColumnsS B data row m newRow cols (assign newRow col v s)) = Inr ()
                \<and> rowAt (snd (imputeColumnsS B data row m newRow cols (assign newRow col v s))) newRow = r"
    for v
    using Cons.IH [of "assign newRow col v s"] Cons.prems assms(2,4)
    by (simp add: length_assign rowRefs_assign rowsOf_assign rowAt_assign split: sum.splits)
  let ?D = "rowsOf s data" and ?R = "rowAt s row" and ?N = "rowAt s newRow"
  show ?case
  proof (cases "isMissing (getCell ?N col)")
    case False
    then have step: "imputeColumn B ?D ?R m col ?N = Inr ?N"
      by (simp add: imputeColumn_def)
    from False Cons.IH [OF Cons.prems] show ?thesis
      by (simp add: step split: sum.splits)
  next
    case True
    show ?thesis
    proof (cases m)
      case Mean
      with True have step: "imputeColumn B ?D ?R m col ?N
          = Inr (setCell col (numCell (calculateColumnMean B ?D col)) ?N)"
        by (simp add: imputeColumn_def)
      from True Mean written [of "numCell (calculateColumnMean B ?D col)"] show ?thesis
        by (simp add: step [unfolded Mean] split: sum.splits)
    next
      case Median
      with True have step: "imputeColumn B ?D ?R m col ?N
          = Inr (setCell col (numCell (calculateColumnMedian B ?D col)) ?N)"
        by (simp add: imputeColumn_def)
      from True Median written [of "numCell (calculateColumnMedian B ?D col)"] show ?thesis
        by (simp add: step [unfolded Median] split: sum.splits)
    next
      case Mode
      show ?thesis
      proof (cases "calculateColumnMode B ?D col")
        case (Inl e)
        with True Mode have step: "imputeColumn B ?D ?R m col ?N = Inl e"
          by (simp add: imputeColumn_def)
        from True Mode Inl show ?thesis by (simp add: step [unfolded Mode] split: sum.splits)
      next
        case (Inr v)
        with True Mode have step: "imputeColumn B ?D ?R m col ?N = Inr (setCell col v ?N)"
          by (simp add: imputeColumn_def)
        from True Mode Inr written [of v] show ?thesis by (simp add: step [unfolded Mode] split: sum.splits)
      qed
    next
      case KNN
      show ?thesis
      proof (cases "knnImputation B ?D ?R col \<lparr>k = 5, distanceMetric = Euclidean\<rparr>")
        case (Inl e)
        with True KNN have step: "imputeColumn B ?D ?R m col ?N = Inl e"
          by (simp add: imputeColumn_def)
        from True KNN Inl show ?thesis by (simp add: step [unfolded KNN] split: sum.splits)
      next
        case (Inr v)
        with True KNN have step: "imputeColumn B ?D ?R m col ?N = Inr (setCell col v ?N)"
          by (simp add: imputeColumn_def)
        from True KNN Inr written [of v] show ?thesis by (simp add: step [unfolded KNN] split: sum.splits)
      qed
    next
      case ForwardFill
      with True have step: "imputeColumn B ?D ?R m col ?N = Inr ?N"
        by (simp add: imputeColumn_def)
      from True ForwardFill Cons.IH [OF Cons.prems] show ?thesis by (simp add: step [unfolded ForwardFill] split: sum.splits)
    next
      case BackwardFill
      with True have step: "imputeColumn B ?D ?R m col ?N = Inr ?N"
        by (simp add: imputeColumn_def)
      from True BackwardFill Cons.IH [OF Cons.prems] show ?thesis by (simp add: step [unfolded BackwardFill] split: sum.splits)
    next
      case Remove
      with True have step: "imputeColumn B ?D ?R m col ?N = Inr ?N"
        by (simp add: imputeColumn_def)
      from True Remove Cons.IH [OF Cons.prems] show ?thesis by (simp add: step [unfolded Remove] split: sum.splits)
    qed
  qed
qed

lemma wellFormed_refs:
  assumes "wellFormed s data" and "a \<in> set (rowRefs s data)"
  shows "a < length s"
  using assms by (simp add: wellFormed_def list_all_iff)

lemma rowAt_allocated: "rowAt (s @ [RowObject r]) (length s) = r"
  by (simp add: rowAt_def)

lemma extends_append: "extends s (s @ xs)"
  by (simp add: extends_def)

lemma length_imputeRowS: "length (snd (imputeRowS B data config row s)) = Suc (length s)"
proof -
  let ?s1 = "s @ [RowObject (rowAt s row)]"
  obtain res s2 where loop:
    "imputeColumnsS B data row (imputationMethod config) (length s) (imputationColumns config) ?s1
       = (res, s2)"
    by (cases "imputeColumnsS B data row (imputationMethod config) (length s)
                 (imputationColumns config) ?s1")
  from imputeColumnsS_extends [OF extends_append _ loop] have "length s2 = Suc (length s)"
    by simp
  with loop show ?thesis
    by (simp add: imputeRowS_def allocate_def split: sum.splits)
qed

lemma imputeRowS_refines:
  assumes "extends s0 s" and "wellFormed s0 data" and "row < length s0"
  shows "(case imputeRow B (rowsOf s0 data) config (rowAt s0 row) of
            Inl e \<Rightarrow> fst (imputeRowS B data config row s) = Inl e
          | Inr r \<Rightarrow> fst (imputeRowS B data config row s) = Inr (Some (length s))
                     \<and> r = Some (rowAt (snd (imputeRowS B data config row s)) (length s)))"
proof -
  let ?s1 = "s @ [RowObject (rowAt s row)]"
  from assms(1) have len: "length s0 \<le> length s" by (rule extends_length)
  have ext: "extends s0 ?s1"
    by (rule extends_trans [OF assms(1) extends_append])
  have rows: "rowsOf ?s1 data = rowsOf s0 data" and refs: "rowRefs ?s1 data = rowRefs s0 data"
    using extends_rowRefs [OF ext assms(2)] by simp_all
  have row: "rowAt ?s1 row = rowAt s0 row"
    by (rule extends_rowAt [OF ext assms(3)])
  have new: "rowAt ?s1 (length s) = rowAt s0 row"
    using extends_rowAt [OF assms(1,3)] by (simp add: rowAt_allocated)
  have fresh: "length s \<notin> set (rowRefs ?s1 data)"
    using wellFormed_refs [OF assms(2), of "length s"] len by (auto simp: refs)
  from assms(2) len have distinct: "length s \<noteq> data" "length s \<noteq> row"
    using assms(3) by (auto simp: wellFormed_def)
  obtain res s2 where loop:
    "imputeColumnsS B data row (imputationMethod config) (length s) (imputationColumns config) ?s1
       = (res, s2)"
    by (cases "imputeColumnsS B data row (imputationMethod config) (length s)
                 (imputationColumns config) ?s1")
  from imputeColumnsS_refines [of "length s" ?s1 data row B "imputationMethod config"
         "imputationColumns config", OF _ distinct(1) fresh distinct(2)] loop
  show ?thesis
    by (auto simp: rows row new imputeRow_def imputeRowS_def allocate_def split: sum.splits)
qed

text \<open>The rows made so far stay as they are while the later rows are made.\<close>

lemma mapES_imputeRowS_refines:
  assumes "wellFormed s0 data" and "list_all (\<lambda>a. a < length s0) refs" and "extends s0 s"
  shows "(case mapE (imputeRow B (rowsOf s0 data) config) (map (rowAt s0) refs) of
            Inl e \<Rightarrow> fst (mapES (imputeRowS B data config) refs s) = Inl e
          | Inr rs \<Rightarrow>
              (case fst (mapES (imputeRowS B data config) refs s) of
                 Inl e \<Rightarrow> False
               | Inr made \<Rightarrow>
                   map (map_option (rowAt (snd (mapES (imputeRowS B data config) refs s)))) made = rs
                   \<and> list_all (\<lambda>r. case r of None \<Rightarrow> True
                                    | Some a \<Rightarrow> a < length (snd (mapES (imputeRowS B data config) refs s)))
                        made))"
  using assms(2,3)
proof (induction refs arbitrary: s)
  case Nil
  show ?case by simp
next
  case (Cons a refs)
  let ?f = "imputeRowS B data config"
  let ?s1 = "snd (?f a s)"
  from Cons.prems have a: "a < length s0" and rest: "list_all (\<lambda>a. a < length s0) refs" by simp_all
  have ext1: "extends s ?s1" and len1: "length ?s1 = Suc (length s)"
    using imputeRowS_extends [OF extends_refl, of B data config a s "fst (?f a s)" ?s1]
    by (simp_all add: length_imputeRowS)
  have ext01: "extends s0 ?s1" by (rule extends_trans [OF Cons.prems(2) ext1])
  let ?s2 = "snd (mapES ?f refs ?s1)"
  have ext2: "extends ?s1 ?s2"
    using mapES_extends [of ?s1 ?f ?s1 refs "fst (mapES ?f refs ?s1)" ?s2] imputeRowS_extends extends_refl
    by (metis prod.collapse)
  have kept: "rowAt ?s2 (length s) = rowAt ?s1 (length s)"
    by (rule extends_rowAt [OF ext2]) (simp add: len1)
  have bound: "length s < length ?s2"
    using extends_length [OF ext2] by (simp add: len1)
  from imputeRowS_refines [OF Cons.prems(2) assms(1) a, of B config] Cons.IH [OF rest ext01] kept bound
  show ?case
    by (cases "?f a s"; cases "mapES ?f refs ?s1")
       (auto split: sum.splits)
qed

lemma dropNull_filter: "dropNull (filter (\<lambda>e. e \<noteq> None) xs) = dropNull xs"
  by (induction xs) (auto simp: dropNull_def List.map_filter_simps)

lemma dropNull_map_option: "dropNull (map (map_option f) xs) = map f (dropNull xs)"
  by (induction xs) (auto simp: dropNull_def List.map_filter_simps split: option.splits)

lemma set_dropNull: "a \<in> set (dropNull xs) \<longleftrightarrow> Some a \<in> set xs"
  by (induction xs) (auto simp: dropNull_def List.map_filter_simps split: option.splits)

text \<open>The end of a stage: the array returned holds the rows that were made.\<close>

lemma filterNotNullS_rows:
  assumes "list_all (\<lambda>r. case r of None \<Rightarrow> True | Some a \<Rightarrow> a < length s) made"
  shows "rowsOf (snd (filterNotNullS made s)) (fst (filterNotNullS made s))
           = dropNull (map (map_option (rowAt s)) made)
         \<and> wellFormed (snd (filterNotNullS made s)) (fst (filterNotNullS made s))"
proof -
  let ?kept = "filter (\<lambda>e. e \<noteq> None) made"
  let ?s' = "s @ [ArrayObject made, ArrayObject ?kept]"
  have result: "filterNotNullS made s = (Suc (length s), ?s')"
    by (simp add: filterNotNullS_def allocate_def)
  have refs: "rowRefs ?s' (Suc (length s)) = dropNull made"
    by (simp add: rowRefs_def elementsAt_def nth_append dropNull_filter [simplified])
  from assms have bound: "a < length s" if "a \<in> set (dropNull made)" for a
    using that by (auto simp: set_dropNull list_all_iff)
  have "extends s ?s'" by (rule extends_append)
  then have "rowAt ?s' a = rowAt s a" if "a \<in> set (dropNull made)" for a
    using bound [OF that] by (rule extends_rowAt)
  then have same: "map (rowAt ?s') (dropNull made) = map (rowAt s) (dropNull made)"
    by simp
  have "rowsOf ?s' (Suc (length s)) = map (rowAt ?s') (dropNull made)"
    by (simp only: rowsOf_def refs)
  also note same
  also have "map (rowAt s) (dropNull made) = dropNull (map (map_option (rowAt s)) made)"
    by (simp only: dropNull_map_option)
  finally have rows: "rowsOf ?s' (Suc (length s)) = dropNull (map (map_option (rowAt s)) made)" .
  have "list_all (\<lambda>a. a < length ?s') (dropNull made)"
    using bound by (auto simp: list_all_iff less_Suc_eq)
  then have "list_all (\<lambda>a. a < length ?s') (rowRefs ?s' (Suc (length s)))"
    by (simp only: refs)
  then have "wellFormed ?s' (Suc (length s))"
    by (simp add: wellFormed_def)
  with rows show ?thesis by (simp only: result fst_conv snd_conv)
qed

lemma handleMissingValuesS_computes:
  assumes "wellFormed s data"
  shows "computes (handleMissingValues B (rowsOf s data) config) (handleMissingValuesS B data config s)"
proof -
  let ?run = "mapES (imputeRowS B data config) (rowRefs s data) s"
  from assms have refs: "list_all (\<lambda>a. a < length s) (rowRefs s data)"
    by (simp add: wellFormed_def)
  note refines = mapES_imputeRowS_refines [OF assms refs extends_refl, of B config,
      folded rowsOf_def]
  show ?thesis
  proof (cases "mapE (imputeRow B (rowsOf s data) config) (rowsOf s data)")
    case (Inl e)
    with refines show ?thesis
      by (cases ?run) (simp add: computes_def handleMissingValues_def handleMissingValuesS_def)
  next
    case (Inr rs)
    with refines obtain made where made: "fst ?run = Inr made"
      "map (map_option (rowAt (snd ?run))) made = rs"
      "list_all (\<lambda>r. case r of None \<Rightarrow> True | Some a \<Rightarrow> a < length (snd ?run)) made"
      by (auto split: sum.splits)
    from filterNotNullS_rows [OF made(3)] made(1,2) Inr show ?thesis
      by (cases ?run; cases "filterNotNullS made (snd ?run)")
         (simp add: computes_def handleMissingValues_def handleMissingValuesS_def)
  qed
qed

text \<open>The loop over the columns of the outlier stage, on the store and on values.\<close>

lemma outlierLoopS_refines:
  assumes "newRow < length s" and "newRow \<noteq> data" and "newRow \<notin> set (rowRefs s data)"
    and "newRow \<noteq> row"
  shows "(case outlierLoop B (rowsOf s data) config (rowAt s row) cols (rowAt s newRow) of
            None \<Rightarrow> fst (outlierLoopS B data config row newRow cols s) = None
          | Some r \<Rightarrow> fst (outlierLoopS B data config row newRow cols s) = Some newRow
                      \<and> rowAt (snd (outlierLoopS B data config row newRow cols s)) newRow = r)"
  using assms(1,3)
proof (induction cols arbitrary: s)
  case Nil
  show ?case by simp
next
  case (Cons col cols)
  let ?D = "rowsOf s data" and ?R = "rowAt s row" and ?N = "rowAt s newRow"
  have written:
    "case outlierLoop B ?D config ?R cols (setCell col v ?N) of
       None \<Rightarrow> fst (outlierLoopS B data config row newRow cols (assign newRow col v s)) = None
     | Some r \<Rightarrow> fst (outlierLoopS B data config row newRow cols (assign newRow col v s)) = Some newRow
                 \<and> rowAt (snd (outlierLoopS B data config row newRow cols (assign newRow col v s))) newRow = r"
    for v
    using Cons.IH [of "assign newRow col v s"] Cons.prems assms(2,4)
    by (simp add: length_assign rowRefs_assign rowsOf_assign rowAt_assign split: option.splits)
  have capped:
    "case outlierLoop B ?D config ?R cols (capCell col v det ?N) of
       None \<Rightarrow> fst (outlierLoopS B data config row newRow cols (capCellS newRow col v det s)) = None
     | Some r \<Rightarrow> fst (outlierLoopS B data config row newRow cols (capCellS newRow col v det s)) = Some newRow
                 \<and> rowAt (snd (outlierLoopS B data config row newRow cols (capCellS newRow col v det s))) newRow = r"
    for v det
    using Cons.IH [of "capCellS newRow col v det s"] Cons.prems assms(2,4)
    by (simp add: length_capCellS rowRefs_capCellS rowsOf_capCellS rowAt_capCellS split: option.splits)
  show ?case
  proof (cases "parseFloat B (getCell ?R col)")
    case None
    with Cons.IH [OF Cons.prems] show ?thesis
      by (simp split: option.splits)
  next
    case (Some v)
    show ?thesis
    proof (cases "isOutlier (detect B ?D config col v)")
      case False
      with Some Cons.IH [OF Cons.prems] show ?thesis
        by (simp split: option.splits)
    next
      case True
      show ?thesis
      proof (cases "outlierAction config")
        case CapAction
        with Some True capped [of v "detect B ?D config col v"] show ?thesis
          by (simp split: option.splits)
      next
        case RemoveAction
        with Some True show ?thesis by simp
      next
        case TransformAction
        with Some True written [of "Num (ln v)"] written [of "Num v"] show ?thesis
          by (cases "0 < v") (simp_all add: transformCell_def split: option.splits)
      qed
    qed
  qed
qed

lemma length_outlierRowS: "length (snd (outlierRowS B data config row s)) = Suc (length s)"
proof -
  let ?s1 = "s @ [RowObject (rowAt s row)]"
  obtain res s2 where loop:
    "outlierLoopS B data config row (length s) (outlierColumns config) ?s1 = (res, s2)"
    by (cases "outlierLoopS B data config row (length s) (outlierColumns config) ?s1")
  from outlierLoopS_extends [OF extends_append _ loop] have "length s2 = Suc (length s)"
    by simp
  with loop show ?thesis
    by (simp add: outlierRowS_def allocate_def)
qed

lemma outlierRowS_refines:
  assumes "extends s0 s" and "wellFormed s0 data" and "row < length s0"
  shows "(case outlierLoop B (rowsOf s0 data) config (rowAt s0 row) (outlierColumns config) (rowAt s0 row) of
            None \<Rightarrow> fst (outlierRowS B data config row s) = None
          | Some r \<Rightarrow> fst (outlierRowS B data config row s) = Some (length s)
                      \<and> rowAt (snd (outlierRowS B data config row s)) (length s) = r)"
proof -
  let ?s1 = "s @ [RowObject (rowAt s row)]"
  from assms(1) have len: "length s0 \<le> length s" by (rule extends_length)
  have ext: "extends s0 ?s1"
    by (rule extends_trans [OF assms(1) extends_append])
  have rows: "rowsOf ?s1 data = rowsOf s0 data" and refs: "rowRefs ?s1 data = rowRefs s0 data"
    using extends_rowRefs [OF ext assms(2)] by simp_all
  have row: "rowAt ?s1 row = rowAt s0 row"
    by (rule extends_rowAt [OF ext assms(3)])
  have new: "rowAt ?s1 (length s) = rowAt s0 row"
    using extends_rowAt [OF assms(1,3)] by (simp add: rowAt_allocated)
  have fresh: "length s \<notin> set (rowRefs ?s1 data)"
    using wellFormed_refs [OF assms(2), of "length s"] len by (auto simp: refs)
  from assms(2) len have distinct: "length s \<noteq> data" "length s \<noteq> row"
    using assms(3) by (auto simp: wellFormed_def)
  from outlierLoopS_refines [of "length s" ?s1 data row B config "outlierColumns config",
         OF _ distinct(1) fresh distinct(2)]
  show ?thesis
    by (simp add: rows row new outlierRowS_def allocate_def split: option.splits)
qed

lemma mapS_outlierRowS_refines:
  assumes "wellFormed s0 data" and "list_all (\<lambda>a. a < length s0) refs" and "extends s0 s"
  shows "map (map_option (rowAt (snd (mapS (outlierRowS B data config) refs s))))
             (fst (mapS (outlierRowS B data config) refs s))
           = map (\<lambda>row. outlierLoop B (rowsOf s0 data) config row (outlierColumns config) row)
               (map (rowAt s0) refs)
         \<and> list_all (\<lambda>r. case r of None \<Rightarrow> True
                          | Some a \<Rightarrow> a < length (snd (mapS (outlierRowS B data config) refs s)))
              (fst (mapS (outlierRowS B data config) refs s))"
  using assms(2,3)
proof (induction refs arbitrary: s)
  case Nil
  show ?case by simp
next
  case (Cons a refs)
  let ?f = "outlierRowS B data config"
  let ?s1 = "snd (?f a s)"
  from Cons.prems have a: "a < length s0" and rest: "list_all (\<lambda>a. a < length s0) refs" by simp_all
  have ext1: "extends s ?s1" and len1: "length ?s1 = Suc (length s)"
    using outlierRowS_extends [OF extends_refl, of B data config a s "fst (?f a s)" ?s1]
    by (simp_all add: length_outlierRowS)
  have ext01: "extends s0 ?s1" by (rule extends_trans [OF Cons.prems(2) ext1])
  let ?s2 = "snd (mapS ?f refs ?s1)"
  have ext2: "extends ?s1 ?s2"
    using mapS_extends [of ?s1 ?f ?s1 refs "fst (mapS ?f refs ?s1)" ?s2] outlierRowS_extends extends_refl
    by (metis prod.collapse)
  have kept: "rowAt ?s2 (length s) = rowAt ?s1 (length s)"
    by (rule extends_rowAt [OF ext2]) (simp add: len1)
  have bound: "length s < length ?s2"
    using extends_length [OF ext2] by (simp add: len1)
  from outlierRowS_refines [OF Cons.prems(2) assms(1) a, of B config] Cons.IH [OF rest ext01] kept bound
  show ?case
    by (cases "?f a s"; cases "mapS ?f refs ?s1")
       (auto split: option.splits)
qed

lemma handleOutliersS_computes:
  assumes "wellFormed s data"
  shows "computes (Inr (handleOutliers B (rowsOf s data) config))
           (case handleOutliersS B data config s of (a, s') \<Rightarrow> (Inr a, s'))"
proof -
  let ?run = "mapS (outlierRowS B data config) (rowRefs s data) s"
  from assms have refs: "list_all (\<lambda>a. a < length s) (rowRefs s data)"
    by (simp add: wellFormed_def)
  note refines = mapS_outlierRowS_refines [OF assms refs extends_refl, of B config,
      folded rowsOf_def]
  from filterNotNullS_rows [OF refines [THEN conjunct2]] refines [THEN conjunct1]
  show ?thesis
    by (cases ?run; cases "filterNotNullS (fst ?run) (snd ?run)")
       (simp add: computes_def handleOutliers_def handleOutliersS_def)
qed

text \<open>The rule stage.\<close>

lemma filterE_map:
  "filterE p (map f xs)
     = (case filterE (\<lambda>x. p (f x)) xs of Inl e \<Rightarrow> Inl e | Inr ys \<Rightarrow> Inr (map f ys))"
  by (induction xs) (auto split: sum.splits)

lemma filterE_subset: "filterE p xs = Inr ys \<Longrightarrow> set ys \<subseteq> set xs"
  by (induction xs arbitrary: ys) (auto split: sum.splits if_splits)

lemma dropNull_Some: "dropNull (map Some xs) = xs"
  by (induction xs) (simp_all add: dropNull_def List.map_filter_simps)

lemma applyRulesS_computes:
  assumes "wellFormed s data"
  shows "computes (applyRules B (rowsOf s data) rs) (applyRulesS B data rs s)"
proof (cases "filterE (\<lambda>a. keepRow B rs (rowAt s a)) (rowRefs s data)")
  case (Inl e)
  then show ?thesis
    by (simp add: computes_def applyRules_def applyRulesS_def rowsOf_def filterE_map)
next
  case (Inr kept)
  let ?s' = "s @ [ArrayObject (map Some kept)]"
  have refs: "rowRefs ?s' (length s) = kept"
    by (simp add: rowRefs_def elementsAt_def dropNull_Some)
  from filterE_subset [OF Inr] wellFormed_refs [OF assms] have bound: "a < length s" if "a \<in> set kept" for a
    using that by auto
  then have "map (rowAt ?s') kept = map (rowAt s) kept"
    using extends_rowAt [OF extends_append, of _ s "[ArrayObject (map Some kept)]"] by simp
  then have rows: "rowsOf ?s' (length s) = map (rowAt s) kept"
    by (simp add: rowsOf_def refs)
  have "wellFormed ?s' (length s)"
    using bound by (auto simp: wellFormed_def refs list_all_iff less_Suc_eq)
  with rows Inr show ?thesis
    by (simp add: computes_def applyRules_def applyRulesS_def rowsOf_def [of s] filterE_map allocate_def)
qed

text \<open>The pipeline: the copy \<^verbatim>\<open>[...data]\<close> holds the rows of the input, and each stage
  computes on the store what it computes on values.\<close>

lemma copy_rows:
  assumes "wellFormed s data"
  shows "rowsOf (s @ [ArrayObject (elementsAt s data)]) (length s) = rowsOf s data"
    and "wellFormed (s @ [ArrayObject (elementsAt s data)]) (length s)"
proof -
  let ?s0 = "s @ [ArrayObject (elementsAt s data)]"
  have refs: "rowRefs ?s0 (length s) = rowRefs s data"
    by (simp add: rowRefs_def elementsAt_def)
  have "map (rowAt ?s0) (rowRefs s data) = map (rowAt s) (rowRefs s data)"
    using wellFormed_refs [OF assms]
      extends_rowAt [OF extends_append, of _ s "[ArrayObject (elementsAt s data)]"]
    by simp
  then show "rowsOf ?s0 (length s) = rowsOf s data"
    by (simp add: rowsOf_def refs)
  show "wellFormed ?s0 (length s)"
    using wellFormed_refs [OF assms]
    by (auto simp: wellFormed_def refs list_all_iff less_Suc_eq)
qed

lemma computes_Inr:
  "computes (Inr rows) (Inr a, s) = (rowsOf s a = rows \<and> wellFormed s a)"
  by (simp add: computes_def)

lemma computes_InlD: "computes (Inl e) outcome \<Longrightarrow> fst outcome = Inl e"
  by (simp add: computes_def)

lemma computes_InrD:
  "computes (Inr rows) outcome \<Longrightarrow> \<exists>a. fst outcome = Inr a \<and> rowsOf (snd outcome) a = rows \<and> wellFormed (snd outcome) a"
  by (cases "fst outcome") (simp_all add: computes_def)

lemma cleanDataS_computes:
  assumes "wellFormed s data"
  shows "computes (cleanData B (rowsOf s data) config) (cleanDataS B data config s)"
proof -
  let ?s0 = "s @ [ArrayObject (elementsAt s data)]"
  let ?rows = "rowsOf s data"
  note copied = copy_rows [OF assms]
  let ?first = "case imputation config of None \<Rightarrow> (Inr (length s), ?s0)
                | Some c \<Rightarrow> handleMissingValuesS B (length s) c ?s0"
  let ?firstV = "case imputation config of None \<Rightarrow> Inr ?rows
                 | Some c \<Rightarrow> handleMissingValues B ?rows c"
  have first: "computes ?firstV ?first"
  proof (cases "imputation config")
    case None
    with copied show ?thesis by (simp add: computes_Inr)
  next
    case (Some c)
    with handleMissingValuesS_computes [OF copied(2), of B c] copied(1) show ?thesis by simp
  qed
  show ?thesis
  proof (cases ?firstV)
    case (Inl e)
    with first have "fst ?first = Inl e" by (simp add: computes_InlD)
    with Inl show ?thesis
      by (cases ?first) (simp add: cleanData_def cleanDataS_def allocate_def computes_def)
  next
    case (Inr imputedV)
    with first obtain imputed s1 where run1: "?first = (Inr imputed, s1)"
      and rows1: "rowsOf s1 imputed = imputedV" and wf1: "wellFormed s1 imputed"
      using computes_InrD [of imputedV ?first] by (cases ?first) auto
    let ?second = "case outliers config of None \<Rightarrow> (imputed, s1)
                   | Some c \<Rightarrow> handleOutliersS B imputed c s1"
    let ?treatedV = "case outliers config of None \<Rightarrow> imputedV
                     | Some c \<Rightarrow> handleOutliers B imputedV c"
    obtain treated s2 where run2: "?second = (treated, s2)" by (cases ?second)
    have second: "rowsOf s2 treated = ?treatedV \<and> wellFormed s2 treated"
    proof (cases "outliers config")
      case None
      with run2 rows1 wf1 show ?thesis by simp
    next
      case (Some c)
      with handleOutliersS_computes [OF wf1, of B c] run2 rows1 show ?thesis
        by (simp add: computes_Inr)
    qed
    let ?thirdV = "case rules config of None \<Rightarrow> Inr ?treatedV
                   | Some rs \<Rightarrow> if length rs > 0 then applyRules B ?treatedV rs else Inr ?treatedV"
    let ?third = "case rules config of None \<Rightarrow> (Inr treated, s2)
                  | Some rs \<Rightarrow> if length rs > 0 then applyRulesS B treated rs s2 else (Inr treated, s2)"
    have third: "computes ?thirdV ?third"
    proof (cases "rules config")
      case None
      with second show ?thesis by (simp add: computes_Inr)
    next
      case (Some rs)
      with applyRulesS_computes [of s2 treated B rs] second show ?thesis
        by (simp add: computes_Inr)
    qed
    have "cleanData B ?rows config = ?thirdV"
      using Inr by (simp add: cleanData_def Let_def)
    moreover have "cleanDataS B data config s = ?third"
      using run1 run2 by (simp add: cleanDataS_def allocate_def)
    ultimately show ?thesis using third by simp
  qed
qed

section \<open>Whose rows the result holds\<close>

text \<open>The imputation and the outlier stage return an array of the copies they made.\<close>

lemma imputeRowS_made:
  "fst (imputeRowS B data config row s) = Inr r \<Longrightarrow> r = Some (length s)"
  by (cases "imputeColumnsS B data row (imputationMethod config) (length s) (imputationColumns config)
               (s @ [RowObject (rowAt s row)])")
     (auto simp: imputeRowS_def allocate_def split: sum.splits)

lemma mapES_imputeRowS_made:
  "mapES (imputeRowS B data config) refs s = (Inr made, s')
     \<Longrightarrow> list_all (\<lambda>r. case r of None \<Rightarrow> False | Some a \<Rightarrow> length s \<le> a \<and> a < length s') made"
proof (induction refs arbitrary: s made s')
  case Nil
  then show ?case by simp
next
  case (Cons a refs)
  let ?f = "imputeRowS B data config"
  obtain y s1 where head: "?f a s = (Inr y, s1)"
    using Cons.prems by (cases "?f a s") (auto split: sum.splits)
  obtain ys where tail: "mapES ?f refs s1 = (Inr ys, s')" and made: "made = y # ys"
    using Cons.prems head by (cases "mapES ?f refs s1") (auto split: sum.splits)
  from imputeRowS_made [of B data config a s y] head have y: "y = Some (length s)" by simp
  from length_imputeRowS [of B data config a s] head have len1: "length s1 = Suc (length s)" by simp
  from mapES_extends [of s1 ?f, OF _ extends_refl tail] imputeRowS_extends
  have len2: "length s1 \<le> length s'" by blast
  from Cons.IH [OF tail] len1
  have "list_all (\<lambda>r. case r of None \<Rightarrow> False | Some a \<Rightarrow> length s \<le> a \<and> a < length s') ys"
    by (auto simp: list_all_iff split: option.splits)
  with y len1 len2 made show ?case by simp
qed

lemma outlierLoopS_made:
  "fst (outlierLoopS B data config row newRow cols s) = Some a \<Longrightarrow> a = newRow"
  by (induction B data config row newRow cols s rule: outlierLoopS.induct)
     (auto simp: Let_def split: option.splits if_splits outlier_action.splits)

lemma mapS_outlierRowS_made:
  "mapS (outlierRowS B data config) refs s = (made, s')
     \<Longrightarrow> list_all (\<lambda>r. case r of None \<Rightarrow> True | Some a \<Rightarrow> length s \<le> a \<and> a < length s') made"
proof (induction refs arbitrary: s made s')
  case Nil
  then show ?case by simp
next
  case (Cons a refs)
  let ?f = "outlierRowS B data config"
  obtain y s1 where head: "?f a s = (y, s1)" by (cases "?f a s")
  obtain ys where tail: "mapS ?f refs s1 = (ys, s')" and made: "made = y # ys"
    using Cons.prems head by (cases "mapS ?f refs s1") auto
  from head outlierLoopS_made [of B data config a "length s" "outlierColumns config"
      "s @ [RowObject (rowAt s a)]"]
  have y: "y = None \<or> y = Some (length s)"
    by (cases y) (auto simp: outlierRowS_def allocate_def)
  from length_outlierRowS [of B data config a s] head have len1: "length s1 = Suc (length s)" by simp
  from mapS_extends [of s1 ?f, OF _ extends_refl tail] outlierRowS_extends
  have len2: "length s1 \<le> length s'" by blast
  from Cons.IH [OF tail] len1
  have "list_all (\<lambda>r. case r of None \<Rightarrow> True | Some a \<Rightarrow> length s \<le> a \<and> a < length s') ys"
    by (auto simp: list_all_iff split: option.splits)
  with y len1 len2 made show ?case by auto
qed

lemma filterNotNullS_refs:
  "filterNotNullS made s = (Suc (length s), s @ [ArrayObject made, ArrayObject (filter (\<lambda>e. e \<noteq> None) made)])"
  by (simp add: filterNotNullS_def allocate_def)

lemma rowRefs_filterNotNullS:
  "rowRefs (snd (filterNotNullS made s)) (fst (filterNotNullS made s)) = dropNull made"
  by (simp only: filterNotNullS_refs fst_conv snd_conv rowRefs_def elementsAt_def)
     (simp add: nth_append dropNull_filter [simplified])

lemma length_filterNotNullS: "length (snd (filterNotNullS made s)) = Suc (Suc (length s))"
  by (simp add: filterNotNullS_refs)

lemma handleMissingValuesS_ownsRows: "ownsRows s (handleMissingValuesS B data config s)"
proof (cases "mapES (imputeRowS B data config) (rowRefs s data) s")
  case (Pair res s1)
  show ?thesis
  proof (cases res)
    case (Inl e)
    with Pair show ?thesis by (simp add: handleMissingValuesS_def ownsRows_def)
  next
    case (Inr made)
    from mapES_imputeRowS_made [of B data config "rowRefs s data" s made s1] Pair Inr
    have "list_all (\<lambda>r. length s \<le> r \<and> r < Suc (Suc (length s1))) (dropNull made)"
      by (fastforce simp: list_all_iff set_dropNull)
    with Pair Inr rowRefs_filterNotNullS [of made s1] length_filterNotNullS [of made s1]
    show ?thesis
      by (cases "filterNotNullS made s1") (simp add: handleMissingValuesS_def ownsRows_def)
  qed
qed

lemma handleOutliersS_ownsRows:
  "ownsRows s (case handleOutliersS B data config s of (a, s') \<Rightarrow> (Inr a, s'))"
proof (cases "mapS (outlierRowS B data config) (rowRefs s data) s")
  case (Pair made s1)
  from mapS_outlierRowS_made [OF Pair]
  have "list_all (\<lambda>r. length s \<le> r \<and> r < Suc (Suc (length s1))) (dropNull made)"
    by (fastforce simp: list_all_iff set_dropNull)
  with Pair rowRefs_filterNotNullS [of made s1] length_filterNotNullS [of made s1]
  show ?thesis
    by (cases "filterNotNullS made s1") (simp add: handleOutliersS_def ownsRows_def)
qed

text \<open>The rule stage returns an array of rows of the array it was given.\<close>

lemma applyRulesS_refs:
  assumes "applyRulesS B data rs s = (Inr a, s')"
  shows "set (rowRefs s' a) \<subseteq> set (rowRefs s data)" and "length s' = Suc (length s)"
proof -
  from assms obtain kept where
    kept: "filterE (\<lambda>a. keepRow B rs (rowAt s a)) (rowRefs s data) = Inr kept"
    and result: "a = length s" "s' = s @ [ArrayObject (map Some kept)]"
    by (auto simp: applyRulesS_def allocate_def split: sum.splits)
  from result have "rowRefs s' a = kept"
    by (simp add: rowRefs_def elementsAt_def dropNull_Some)
  with filterE_subset [OF kept] show "set (rowRefs s' a) \<subseteq> set (rowRefs s data)" by simp
  from result show "length s' = Suc (length s)" by simp
qed

lemma applyRulesS_sharesRows: "sharesRows s data (applyRulesS B data rs s)"
proof (cases "applyRulesS B data rs s")
  case (Pair res s')
  show ?thesis
  proof (cases res)
    case (Inl e)
    with Pair show ?thesis by (simp add: sharesRows_def)
  next
    case (Inr a)
    with Pair applyRulesS_refs(1) [of B data rs s a s'] show ?thesis
      by (auto simp: sharesRows_def list_all_iff)
  qed
qed

lemma applyRulesS_keeps_owned:
  assumes "list_all (\<lambda>r. length s0 \<le> r \<and> r < length s) (rowRefs s data)"
  shows "ownsRows s0 (applyRulesS B data rs s)"
proof (cases "applyRulesS B data rs s")
  case (Pair res s')
  show ?thesis
  proof (cases res)
    case (Inl e)
    with Pair show ?thesis by (simp add: ownsRows_def)
  next
    case (Inr a)
    with Pair applyRulesS_refs [of B data rs s a s'] assms show ?thesis
      by (fastforce simp: ownsRows_def list_all_iff)
  qed
qed

lemma ownsRows_after:
  assumes "extends s0 s" and "ownsRows s outcome"
  shows "ownsRows s0 outcome"
  using assms(2) extends_length [OF assms(1)]
  by (auto simp: ownsRows_def list_all_iff split: sum.splits)

text \<open>The pipeline.  The last stage, on an array whose rows are new, returns one whose rows
  are new; on the copy of the input array, one whose rows are the input's.\<close>

lemma rules_keep_owned:
  assumes "list_all (\<lambda>r. length s0 \<le> r \<and> r < length s) (rowRefs s treated)"
  shows "ownsRows s0 (case rules config of
                       None \<Rightarrow> (Inr treated, s)
                     | Some rs \<Rightarrow> if length rs > 0 then applyRulesS B treated rs s else (Inr treated, s))"
  using assms applyRulesS_keeps_owned [OF assms]
  by (simp add: ownsRows_def split: option.splits)

lemma cleanDataS_ownsRows:
  assumes "imputation config \<noteq> None \<or> outliers config \<noteq> None"
  shows "ownsRows s (cleanDataS B data config s)"
proof -
  let ?s0 = "s @ [ArrayObject (elementsAt s data)]"
  have s0: "extends s ?s0" by (rule extends_append)
  let ?stage1 = "case imputation config of None \<Rightarrow> (Inr (length s), ?s0)
                 | Some c \<Rightarrow> handleMissingValuesS B (length s) c ?s0"
  obtain r1 s1 where st1: "?stage1 = (r1, s1)" by (cases ?stage1)
  have f1: "framed s (r1, s1)"
  proof (cases "imputation config")
    case None
    with st1 s0 show ?thesis by (auto simp: framed_def)
  next
    case (Some c)
    with framed_after [OF s0 handleMissingValuesS_framed [of ?s0 B "length s" c]] st1
    show ?thesis by simp
  qed
  show ?thesis
  proof (cases r1)
    case (Inl e)
    with st1 show ?thesis
      by (simp add: cleanDataS_def allocate_def ownsRows_def)
  next
    case (Inr imputed)
    from f1 have ext1: "extends s s1" by (simp add: framed_def)
    let ?stage2 = "case outliers config of None \<Rightarrow> (imputed, s1)
                   | Some c \<Rightarrow> handleOutliersS B imputed c s1"
    obtain treated s2 where st2: "?stage2 = (treated, s2)" by (cases ?stage2)
    have owned: "ownsRows s (Inr treated, s2)"
    proof (cases "outliers config")
      case (Some c)
      with ownsRows_after [OF ext1 handleOutliersS_ownsRows [of s1 B imputed c]] st2
      show ?thesis by simp
    next
      case None
      with assms obtain c where c: "imputation config = Some c" by auto
      with ownsRows_after [OF s0 handleMissingValuesS_ownsRows [of ?s0 B "length s" c]] st1 Inr
      have "ownsRows s (Inr imputed, s1)" by simp
      with None st2 show ?thesis by simp
    qed
    then have "list_all (\<lambda>r. length s \<le> r \<and> r < length s2) (rowRefs s2 treated)"
      by (simp add: ownsRows_def)
    from rules_keep_owned [OF this] st1 Inr st2 show ?thesis
      by (simp add: cleanDataS_def allocate_def)
  qed
qed

lemma cleanDataS_sharesRows:
  assumes "imputation config = None" and "outliers config = None"
  shows "sharesRows s data (cleanDataS B data config s)"
proof -
  let ?s0 = "s @ [ArrayObject (elementsAt s data)]"
  have refs: "rowRefs ?s0 (length s) = rowRefs s data"
    by (simp add: rowRefs_def elementsAt_def)
  have run: "cleanDataS B data config s
      = (case rules config of
           None \<Rightarrow> (Inr (length s), ?s0)
         | Some rs \<Rightarrow> if length rs > 0 then applyRulesS B (length s) rs ?s0 else (Inr (length s), ?s0))"
    using assms by (simp add: cleanDataS_def allocate_def)
  have "sharesRows s data (applyRulesS B (length s) rs ?s0)" for rs
    using applyRulesS_sharesRows [of ?s0 "length s" B rs] by (simp add: sharesRows_def refs split: sum.splits)
  moreover from refs have "sharesRows s data (Inr (length s), ?s0)"
    by (simp add: sharesRows_def list_all_iff)
  ultimately show ?thesis
    by (simp add: run split: option.splits)
qed

text \<open>
  C9. \<^verbatim>\<open>cleanData\<close> leaves its input as it is: whatever the store, the input array and the
  configuration, every object of the store before the call (the input array and every row
  it refers to among them) is in the store after the call at its address and with its
  value, and the array returned is an object that was not there before.  The same holds
  for each stage on its own: each returns a new array and writes to no object it was given.
  Whose rows the new array holds depends on the stage.  The imputation and the outlier
  stage fill it with the copies \<^verbatim>\<open>{ ...row }\<close> they make, so every row of their result, and
  of the result of \<^verbatim>\<open>cleanData\<close> when one of the two is configured, is an object that was
  not there before.  The rule stage copies no row: every row of its result is a row of the
  array it was given, and so is every row of the result of \<^verbatim>\<open>cleanData\<close> when neither
  imputation nor outliers is configured.
\<close>

theorem cleanData_input_unchanged_rows_copied_or_shared:
  "framed s (cleanDataS B data config s)
   \<and> framed s (handleMissingValuesS B data imputationConfig s)
   \<and> framed s (case handleOutliersS B data outlierConfig s of (a, s') \<Rightarrow> (Inr a, s'))
   \<and> framed s (applyRulesS B data rs s)
   \<and> ownsRows s (handleMissingValuesS B data imputationConfig s)
   \<and> ownsRows s (case handleOutliersS B data outlierConfig s of (a, s') \<Rightarrow> (Inr a, s'))
   \<and> sharesRows s data (applyRulesS B data rs s)
   \<and> (imputation config \<noteq> None \<or> outliers config \<noteq> None
        \<longrightarrow> ownsRows s (cleanDataS B data config s))
   \<and> (imputation config = None \<and> outliers config = None
        \<longrightarrow> sharesRows s data (cleanDataS B data config s))"
proof -
  have "imputation config \<noteq> None \<or> outliers config \<noteq> None
          \<longrightarrow> ownsRows s (cleanDataS B data config s)"
    using cleanDataS_ownsRows [of config s B data] by blast
  moreover have "imputation config = None \<and> outliers config = None
          \<longrightarrow> sharesRows s data (cleanDataS B data config s)"
    using cleanDataS_sharesRows [of config s data B] by blast
  ultimately show ?thesis
    using cleanDataS_framed [of s B data config]
      handleMissingValuesS_framed [of s B data imputationConfig]
      handleOutliersS_framed [of s B data outlierConfig]
      applyRulesS_framed [of s B data rs]
      handleMissingValuesS_ownsRows [of s B data imputationConfig]
      handleOutliersS_ownsRows [of s B data outlierConfig]
      applyRulesS_sharesRows [of s data B rs]
    by blast
qed

text \<open>Two runs on a store with the rows \<^verbatim>\<open>{x: 1}\<close> and \<^verbatim>\<open>{x: null}\<close> at the addresses 0 and 1
  and the array of both at the address 2.  Mean imputation on \<^verbatim>\<open>x\<close> returns the array at
  the address 7, whose rows are the copies at 4 and 5; with nothing configured the array
  returned is the copy at 3, whose rows are the rows at 0 and 1.  The three objects given
  are as before in both.\<close>

theorem cleanData_input_unchanged_rows_copied_or_shared_example:
  "cleanDataS intBuiltins 2
     \<lparr>imputation = Some \<lparr>imputationMethod = Mean, imputationColumns = [''x'']\<rparr>,
      outliers = None, rules = None\<rparr>
     [RowObject [(''x'', Num 1)], RowObject [(''x'', Null)], ArrayObject [Some 0, Some 1]]
   = (Inr 7,
      [RowObject [(''x'', Num 1)], RowObject [(''x'', Null)], ArrayObject [Some 0, Some 1],
       ArrayObject [Some 0, Some 1], RowObject [(''x'', Num 1)], RowObject [(''x'', Num 1)],
       ArrayObject [Some 4, Some 5], ArrayObject [Some 4, Some 5]])
   \<and> framed [RowObject [(''x'', Num 1)], RowObject [(''x'', Null)], ArrayObject [Some 0, Some 1]]
       (Inr 7,
        [RowObject [(''x'', Num 1)], RowObject [(''x'', Null)], ArrayObject [Some 0, Some 1],
         ArrayObject [Some 0, Some 1], RowObject [(''x'', Num 1)], RowObject [(''x'', Num 1)],
         ArrayObject [Some 4, Some 5], ArrayObject [Some 4, Some 5]])
   \<and> ownsRows [RowObject [(''x'', Num 1)], RowObject [(''x'', Null)], ArrayObject [Some 0, Some 1]]
       (Inr 7,
        [RowObject [(''x'', Num 1)], RowObject [(''x'', Null)], ArrayObject [Some 0, Some 1],
         ArrayObject [Some 0, Some 1], RowObject [(''x'', Num 1)], RowObject [(''x'', Num 1)],
         ArrayObject [Some 4, Some 5], ArrayObject [Some 4, Some 5]])
   \<and> cleanDataS intBuiltins 2 \<lparr>imputation = None, outliers = None, rules = None\<rparr>
       [RowObject [(''x'', Num 1)], RowObject [(''x'', Null)], ArrayObject [Some 0, Some 1]]
     = (Inr 3,
        [RowObject [(''x'', Num 1)], RowObject [(''x'', Null)], ArrayObject [Some 0, Some 1],
         ArrayObject [Some 0, Some 1]])
   \<and> sharesRows [RowObject [(''x'', Num 1)], RowObject [(''x'', Null)], ArrayObject [Some 0, Some 1]] 2
       (Inr 3,
        [RowObject [(''x'', Num 1)], RowObject [(''x'', Null)], ArrayObject [Some 0, Some 1],
         ArrayObject [Some 0, Some 1]])"
proof -
  let ?s = "[RowObject [(''x'', Num 1)], RowObject [(''x'', Null)], ArrayObject [Some 0, Some 1]]"
  let ?mean = "\<lparr>imputation = Some \<lparr>imputationMethod = Mean, imputationColumns = [''x'']\<rparr>,
      outliers = None, rules = None\<rparr>"
  let ?nothing = "\<lparr>imputation = None, outliers = None, rules = None\<rparr>"
  have run: "cleanDataS intBuiltins 2 ?mean ?s
   = (Inr 7,
      [RowObject [(''x'', Num 1)], RowObject [(''x'', Null)], ArrayObject [Some 0, Some 1],
       ArrayObject [Some 0, Some 1], RowObject [(''x'', Num 1)], RowObject [(''x'', Num 1)],
       ArrayObject [Some 4, Some 5], ArrayObject [Some 4, Some 5]])"
    by (simp add: cleanDataS_def handleMissingValuesS_def imputeRowS_def filterNotNullS_def
          allocate_def elementsAt_def rowAt_def rowRefs_def rowsOf_def assign_def
          calculateColumnMean_def numericValues_def row_defs)
  have plain: "cleanDataS intBuiltins 2 ?nothing ?s
     = (Inr 3,
        [RowObject [(''x'', Num 1)], RowObject [(''x'', Null)], ArrayObject [Some 0, Some 1],
         ArrayObject [Some 0, Some 1]])"
    by (simp add: cleanDataS_def allocate_def elementsAt_def)
  from cleanData_input_unchanged_rows_copied_or_shared [of ?s intBuiltins 2 ?mean]
  have "framed ?s (cleanDataS intBuiltins 2 ?mean ?s)"
    and "ownsRows ?s (cleanDataS intBuiltins 2 ?mean ?s)" by simp_all
  moreover from cleanData_input_unchanged_rows_copied_or_shared [of ?s intBuiltins 2 ?nothing]
  have "sharesRows ?s 2 (cleanDataS intBuiltins 2 ?nothing ?s)" by simp
  ultimately show ?thesis by (simp only: run plain simp_thms)
qed

text \<open>The result can hold the very rows of the input.  The store has the rows \<^verbatim>\<open>{x: 1}\<close> and
  \<^verbatim>\<open>{x: 2}\<close> at the addresses 0 and 1 and the array of both at the address 2.  With the one
  rule \<^verbatim>\<open>x equals 2\<close>, action \<^verbatim>\<open>remove\<close>, \<^verbatim>\<open>cleanData\<close> returns the new array at the address 4,
  and its only element is the address 1, the second row of the input; the rule stage on its
  own does the same, and with nothing configured the array returned holds both rows of the
  input.\<close>

theorem rule_stage_returns_input_rows:
  "cleanDataS intBuiltins 2
     \<lparr>imputation = None, outliers = None,
      rules = Some [\<lparr>ruleColumn = ''x'', ruleCondition = Equals, ruleValue = Scalar (Num 2),
                     ruleAction = RemoveRule\<rparr>]\<rparr>
     [RowObject [(''x'', Num 1)], RowObject [(''x'', Num 2)], ArrayObject [Some 0, Some 1]]
   = (Inr 4,
      [RowObject [(''x'', Num 1)], RowObject [(''x'', Num 2)], ArrayObject [Some 0, Some 1],
       ArrayObject [Some 0, Some 1], ArrayObject [Some 1]])
   \<and> \<not> ownsRows [RowObject [(''x'', Num 1)], RowObject [(''x'', Num 2)], ArrayObject [Some 0, Some 1]]
        (cleanDataS intBuiltins 2
           \<lparr>imputation = None, outliers = None,
            rules = Some [\<lparr>ruleColumn = ''x'', ruleCondition = Equals, ruleValue = Scalar (Num 2),
                           ruleAction = RemoveRule\<rparr>]\<rparr>
           [RowObject [(''x'', Num 1)], RowObject [(''x'', Num 2)], ArrayObject [Some 0, Some 1]])
   \<and> applyRulesS intBuiltins 2
       [\<lparr>ruleColumn = ''x'', ruleCondition = Equals, ruleValue = Scalar (Num 2),
         ruleAction = RemoveRule\<rparr>]
       [RowObject [(''x'', Num 1)], RowObject [(''x'', Num 2)], ArrayObject [Some 0, Some 1]]
     = (Inr 3,
        [RowObject [(''x'', Num 1)], RowObject [(''x'', Num 2)], ArrayObject [Some 0, Some 1],
         ArrayObject [Some 1]])
   \<and> \<not> ownsRows [RowObject [(''x'', Num 1)], RowObject [(''x'', Num 2)], ArrayObject [Some 0, Some 1]]
        (applyRulesS intBuiltins 2
           [\<lparr>ruleColumn = ''x'', ruleCondition = Equals, ruleValue = Scalar (Num 2),
             ruleAction = RemoveRule\<rparr>]
           [RowObject [(''x'', Num 1)], RowObject [(''x'', Num 2)], ArrayObject [Some 0, Some 1]])
   \<and> cleanDataS intBuiltins 2 \<lparr>imputation = None, outliers = None, rules = None\<rparr>
       [RowObject [(''x'', Num 1)], RowObject [(''x'', Num 2)], ArrayObject [Some 0, Some 1]]
     = (Inr 3,
        [RowObject [(''x'', Num 1)], RowObject [(''x'', Num 2)], ArrayObject [Some 0, Some 1],
         ArrayObject [Some 0, Some 1]])
   \<and> \<not> ownsRows [RowObject [(''x'', Num 1)], RowObject [(''x'', Num 2)], ArrayObject [Some 0, Some 1]]
        (cleanDataS intBuiltins 2 \<lparr>imputation = None, outliers = None, rules = None\<rparr>
           [RowObject [(''x'', Num 1)], RowObject [(''x'', Num 2)], ArrayObject [Some 0, Some 1]])"
proof -
  let ?s = "[RowObject [(''x'', Num 1)], RowObject [(''x'', Num 2)], ArrayObject [Some 0, Some 1]]"
  let ?rule = "\<lparr>ruleColumn = ''x'', ruleCondition = Equals, ruleValue = Scalar (Num 2),
                 ruleAction = RemoveRule\<rparr>"
  have stage: "applyRulesS intBuiltins 2 [?rule] ?s = (Inr 3, ?s @ [ArrayObject [Some 1]])"
    by (simp add: applyRulesS_def allocate_def elementsAt_def rowAt_def rowRefs_def
          violatesRule_def strictNotEqual_def row_defs)
  have pipeline: "cleanDataS intBuiltins 2
      \<lparr>imputation = None, outliers = None, rules = Some [?rule]\<rparr> ?s
      = (Inr 4, ?s @ [ArrayObject [Some 0, Some 1], ArrayObject [Some 1]])"
    by (simp add: cleanDataS_def applyRulesS_def allocate_def elementsAt_def rowAt_def rowRefs_def
          violatesRule_def strictNotEqual_def row_defs)
  have plain: "cleanDataS intBuiltins 2 \<lparr>imputation = None, outliers = None, rules = None\<rparr> ?s
      = (Inr 3, ?s @ [ArrayObject [Some 0, Some 1]])"
    by (simp add: cleanDataS_def allocate_def elementsAt_def)
  show ?thesis
    by (simp only: stage pipeline plain)
       (simp add: ownsRows_def rowRefs_def elementsAt_def row_defs)
qed

end
